theory Spec2Isabelle
  imports Main "HOL-Library.Sublist"
begin

section \<open>Python values and errors\<close>

text \<open>
  The arguments of \<^verbatim>\<open>search_files\<close> and \<^verbatim>\<open>extract_file_components\<close> are
  dynamically typed. \<open>pyobj\<close> holds the shapes the type checks of the source
  tell apart: \<^verbatim>\<open>None\<close>, a \<^verbatim>\<open>str\<close>, a \<^verbatim>\<open>list\<close>, a \<^verbatim>\<open>tuple\<close> (both are
  \<^verbatim>\<open>Sequence\<close>s) and, standing for every value that is neither a string nor a
  sequence, an \<^verbatim>\<open>int\<close>. A Python \<^verbatim>\<open>str\<close> is a \<open>string\<close>, one \<open>char\<close> per
  character.
\<close>

datatype pyobj =
    PNone
  | PStr string
  | PList "pyobj list"
  | PTuple "pyobj list"
  | PInt int

text \<open>
  Exceptions are values. \<open>TypeError\<close> and \<open>FileNotFoundError\<close> are the two
  exceptions the source raises itself (the latter names the directory);
  \<open>AttributeError\<close> is raised by the interpreter when \<^verbatim>\<open>append\<close> is looked up on a
  tuple; \<open>ReError\<close> is \<^verbatim>\<open>re.error\<close>, raised by \<^verbatim>\<open>re.match\<close> on a pattern that does
  not compile; \<open>OtherError\<close> stands for an exception of any other class, with its
  name. A custom predicate can raise any of them.
\<close>

datatype error =
    TypeError
  | FileNotFoundError string
  | AttributeError
  | ReError string
  | OtherError string

fun is_str :: "pyobj \<Rightarrow> bool" where
  "is_str (PStr s) = True"
| "is_str v = False"

section \<open>The path primitives of the host (\<^verbatim>\<open>posixpath\<close>)\<close>

text \<open>
  \<^verbatim>\<open>os.path.split\<close>, \<^verbatim>\<open>os.path.splitext\<close> and \<^verbatim>\<open>os.path.join\<close> are taken as on a
  POSIX host, following the standard library: the separator is \<^verbatim>\<open>/\<close>, the
  extension separator is \<^verbatim>\<open>.\<close>, and there is no alternative separator.
\<close>

definition sep :: char where
  "sep = CHR ''/''"

definition extsep :: char where
  "extsep = CHR ''.''"

text \<open>\<^verbatim>\<open>s.startswith(p)\<close>, \<^verbatim>\<open>s.endswith(p)\<close> and \<^verbatim>\<open>p in s\<close> on strings.\<close>

definition startswith :: "string \<Rightarrow> string \<Rightarrow> bool" where
  "startswith s p = prefix p s"

definition endswith :: "string \<Rightarrow> string \<Rightarrow> bool" where
  "endswith s p = suffix p s"

definition str_contains :: "string \<Rightarrow> string \<Rightarrow> bool" where
  "str_contains s p = sublist p s"

text \<open>\<^verbatim>\<open>s.rfind(c)\<close>: the highest index at which \<open>c\<close> occurs, or \<open>-1\<close>.\<close>

fun rfind :: "string \<Rightarrow> char \<Rightarrow> int" where
  "rfind [] c = - 1"
| "rfind (x # xs) c =
     (let r = rfind xs c in
      if 0 \<le> r then r + 1 else if x = c then 0 else - 1)"

text \<open>\<^verbatim>\<open>s.rstrip(c)\<close> for a one-character argument.\<close>

definition rstrip :: "string \<Rightarrow> char \<Rightarrow> string" where
  "rstrip s c = rev (dropWhile (\<lambda>x. x = c) (rev s))"

text \<open>
  \<^verbatim>\<open>
  def split(p):
      i = p.rfind(sep) + 1
      head, tail = p[:i], p[i:]
      if head and head != sep*len(head):
          head = head.rstrip(sep)
      return head, tail
  \<close>
\<close>

definition split :: "string \<Rightarrow> string \<times> string" where
  "split p =
     (let i = nat (rfind p sep + 1);
          head = take i p;
          tail = drop i p
      in if head \<noteq> [] \<and> head \<noteq> replicate (length head) sep
         then (rstrip head sep, tail)
         else (head, tail))"

text \<open>
  \<^verbatim>\<open>
  def _splitext(p, sep, altsep, extsep):
      sepIndex = p.rfind(sep)
      dotIndex = p.rfind(extsep)
      if dotIndex > sepIndex:
          filenameIndex = sepIndex + 1
          while filenameIndex < dotIndex:
              if p[filenameIndex:filenameIndex+1] != extsep:
                  return p[:dotIndex], p[dotIndex:]
              filenameIndex += 1
      return p, p[:0]
  \<close>
  The loop is \<open>splitext_loop\<close>: it answers whether the early \<^verbatim>\<open>return\<close> is taken.
\<close>

function splitext_loop :: "string \<Rightarrow> int \<Rightarrow> int \<Rightarrow> bool" where
  "splitext_loop p filenameIndex dotIndex =
     (if filenameIndex < dotIndex
      then (if take 1 (drop (nat filenameIndex) p) \<noteq> [extsep] then True
            else splitext_loop p (filenameIndex + 1) dotIndex)
      else False)"
  by pat_completeness auto
termination
  by (relation "measure (\<lambda>(p, i, d). nat (d - i))") auto

declare splitext_loop.simps [simp del]

definition splitext :: "string \<Rightarrow> string \<times> string" where
  "splitext p =
     (let sepIndex = rfind p sep;
          dotIndex = rfind p extsep
      in if dotIndex > sepIndex \<and> splitext_loop p (sepIndex + 1) dotIndex
         then (take (nat dotIndex) p, drop (nat dotIndex) p)
         else (p, []))"

text \<open>
  \<^verbatim>\<open>
  def join(a, b):
      path = a
      if b.startswith(sep):
          path = b
      elif not path or path.endswith(sep):
          path += b
      else:
          path += sep + b
      return path
  \<close>
\<close>

definition join :: "string \<Rightarrow> string \<Rightarrow> string" where
  "join a b =
     (if startswith b [sep] then b
      else if a = [] \<or> endswith a [sep] then a @ b
      else a @ [sep] @ b)"

definition isabs :: "string \<Rightarrow> bool" where
  "isabs s = startswith s [sep]"

section \<open>\<^verbatim>\<open>extract_file_components\<close>\<close>

definition extract_file_components :: "pyobj \<Rightarrow> error + (string \<times> string \<times> string)" where
  "extract_file_components filepath =
     (case filepath of
        PStr p \<Rightarrow>
          (let (path, filename_with_ext) = split p;
               (filename, extension) = splitext filename_with_ext
           in Inr (path, filename, extension))
      | _ \<Rightarrow> Inl TypeError)"

text \<open>
  Two path strings are equivalent when they begin with the same run of
  separators and are equal once every later run of separators is read as one
  separator, which is how a POSIX host resolves them.
\<close>

fun squeeze :: "string \<Rightarrow> string" where
  "squeeze (a # b # r) =
     (if a = sep \<and> b = sep then squeeze (b # r) else a # squeeze (b # r))"
| "squeeze xs = xs"

definition path_equiv :: "string \<Rightarrow> string \<Rightarrow> bool" where
  "path_equiv p q =
     (takeWhile (\<lambda>x. x = sep) p = takeWhile (\<lambda>x. x = sep) q \<and> squeeze p = squeeze q)"


section \<open>The host: file system and regular expressions\<close>

text \<open>
  A directory is the list of its entries in the order \<^verbatim>\<open>os.scandir\<close> returns
  them. \<open>File\<close> is every entry that is not a directory (\<^verbatim>\<open>entry.is_dir()\<close> is
  false), \<open>Dir\<close> a real directory, \<open>DirLink\<close> a symbolic link to a directory:
  \<^verbatim>\<open>os.walk\<close> lists it among the directories and, with \<^verbatim>\<open>followlinks=False\<close>,
  does not walk into it.
\<close>

datatype node =
    File
  | Dir "(string \<times> node) list"
  | DirLink

fun is_dir :: "node \<Rightarrow> bool" where
  "is_dir File = False"
| "is_dir (Dir es) = True"
| "is_dir DirLink = True"

text \<open>
  The regular expressions of \<^verbatim>\<open>re\<close>, after compilation, for the fragment without
  back-references and look-around: the empty expression, one character out of
  a class (a literal, \<^verbatim>\<open>.\<close>, \<^verbatim>\<open>\d\<close>, \<^verbatim>\<open>[...]\<close>), sequence, alternative, repetition
  (\<^verbatim>\<open>*\<close>; \<^verbatim>\<open>r+\<close> is \<open>Seq r (Star r)\<close>), and the anchors \<^verbatim>\<open>^\<close> and \<^verbatim>\<open>$\<close>.
\<close>

datatype regex =
    Eps
  | Sym "char \<Rightarrow> bool"
  | Seq regex regex
  | Alt regex regex
  | Star regex
  | Bos
  | Eos

text \<open>
  \<open>closure f n xs\<close>: the positions reached from \<open>xs\<close> by at most \<open>n\<close> rounds of
  \<open>f\<close>.
\<close>

fun closure :: "(nat \<Rightarrow> nat list) \<Rightarrow> nat \<Rightarrow> nat list \<Rightarrow> nat list" where
  "closure f 0 xs = xs"
| "closure f (Suc n) xs = closure f n (remdups (xs @ concat (map f xs)))"

text \<open>
  \<open>match_ends r s i\<close>: the positions \<open>j\<close> at which a match of \<open>r\<close> that starts at
  position \<open>i\<close> of \<open>s\<close> can end. \<^verbatim>\<open>$\<close> holds at the end of the string and before
  a newline that ends it.
\<close>

primrec match_ends :: "regex \<Rightarrow> string \<Rightarrow> nat \<Rightarrow> nat list" where
  "match_ends Eps s i = [i]"
| "match_ends (Sym P) s i = (if i < length s \<and> P (s ! i) then [Suc i] else [])"
| "match_ends (Seq a b) s i = concat (map (match_ends b s) (match_ends a s i))"
| "match_ends (Alt a b) s i = match_ends a s i @ match_ends b s i"
| "match_ends (Star a) s i = closure (match_ends a s) (Suc (length s)) [i]"
| "match_ends Bos s i = (if i = 0 then [i] else [])"
| "match_ends Eos s i =
     (if i = length s \<or> (Suc i = length s \<and> s ! i = CHR 0x0A) then [i] else [])"

text \<open>
  The host gives the working directory (\<^verbatim>\<open>os.getcwd()\<close>), what a path names in
  the file system (\<open>lookup\<close>, which follows symbolic links; \<open>None\<close> when the path
  names nothing), and the compiler of \<^verbatim>\<open>re\<close> (\<open>None\<close> when the pattern is
  rejected with \<^verbatim>\<open>re.error\<close>).
\<close>

record host =
  getcwd :: string
  lookup :: "string \<Rightarrow> node option"
  re_compile :: "string \<Rightarrow> regex option"

definition isdir :: "host \<Rightarrow> string \<Rightarrow> bool" where
  "isdir h p = (case lookup h p of Some (Dir es) \<Rightarrow> True | _ \<Rightarrow> False)"

text \<open>
  \<^verbatim>\<open>re.match(p, s)\<close>, \<^verbatim>\<open>re.search(p, s)\<close> and \<^verbatim>\<open>re.fullmatch(p, s)\<close>, as the truth
  value of the match object. The source calls the first; the other two are here
  to be told apart from it.
\<close>

definition re_match :: "host \<Rightarrow> string \<Rightarrow> string \<Rightarrow> error + bool" where
  "re_match h p s =
     (case re_compile h p of
        None \<Rightarrow> Inl (ReError p)
      | Some r \<Rightarrow> Inr (match_ends r s 0 \<noteq> []))"

definition re_search :: "host \<Rightarrow> string \<Rightarrow> string \<Rightarrow> error + bool" where
  "re_search h p s =
     (case re_compile h p of
        None \<Rightarrow> Inl (ReError p)
      | Some r \<Rightarrow> Inr (list_ex (\<lambda>i. match_ends r s i \<noteq> []) [0..<Suc (length s)]))"

definition re_fullmatch :: "host \<Rightarrow> string \<Rightarrow> string \<Rightarrow> error + bool" where
  "re_fullmatch h p s =
     (case re_compile h p of
        None \<Rightarrow> Inl (ReError p)
      | Some r \<Rightarrow> Inr (length s \<in> set (match_ends r s 0)))"

text \<open>
  \<^verbatim>\<open>os.walk(top)\<close>, top-down: the triple of a directory comes before the triples
  of its sub-directories, which come in the order of \<^verbatim>\<open>dirs\<close>; the path of a
  sub-directory is \<^verbatim>\<open>join(top, dirname)\<close> (\<open>topdir\<close> is the \<^verbatim>\<open>top\<close> of the library). Errors of \<^verbatim>\<open>scandir\<close> are ignored, so
  a path that is not a directory yields nothing.
\<close>

fun walk :: "string \<Rightarrow> node \<Rightarrow> (string \<times> string list \<times> string list) list" where
  "walk topdir (Dir es) =
     (topdir, map fst (filter (\<lambda>e. is_dir (snd e)) es), map fst (filter (\<lambda>e. \<not> is_dir (snd e)) es))
     # concat (map (\<lambda>e. case snd e of Dir sub \<Rightarrow> walk (join topdir (fst e)) (snd e) | _ \<Rightarrow> []) es)"
| "walk topdir File = []"
| "walk topdir DirLink = []"

definition os_walk :: "host \<Rightarrow> string \<Rightarrow> (string \<times> string list \<times> string list) list" where
  "os_walk h topdir = (case lookup h topdir of Some n \<Rightarrow> walk topdir n | None \<Rightarrow> [])"


section \<open>Effects: a log of what the call does, and its outcome\<close>

text \<open>
  A computation yields the log of the calls it made to the host and to the
  custom predicates, in order, and either the exception that ended it or its
  value. The events are \<^verbatim>\<open>os.getcwd()\<close>, \<^verbatim>\<open>os.path.isdir(d)\<close>, the opening of a
  directory by \<^verbatim>\<open>os.walk\<close>, and the calls of \<^verbatim>\<open>include_filter\<close> and
  \<^verbatim>\<open>exclude_filter\<close> on a path.
\<close>

datatype event =
    Getcwd
  | Isdir string
  | Scandir string
  | IncludeCall string
  | ExcludeCall string

type_synonym 'a io = "event list \<times> (error + 'a)"

definition io_return :: "'a \<Rightarrow> 'a io" where
  "io_return x = ([], Inr x)"

definition io_raise :: "error \<Rightarrow> 'a io" where
  "io_raise e = ([], Inl e)"

definition io_emit :: "event \<Rightarrow> unit io" where
  "io_emit ev = ([ev], Inr ())"

definition io_bind :: "'a io \<Rightarrow> ('a \<Rightarrow> 'b io) \<Rightarrow> 'b io" where
  "io_bind m f =
     (case m of
        (t, Inl e) \<Rightarrow> (t, Inl e)
      | (t, Inr x) \<Rightarrow> (case f x of (t', r) \<Rightarrow> (t @ t', r)))"

text \<open>Python's \<^verbatim>\<open>a and b\<close> and \<^verbatim>\<open>a or b\<close>, as truth values: \<open>b\<close> runs only when it decides.\<close>

definition io_and :: "bool io \<Rightarrow> bool io \<Rightarrow> bool io" where
  "io_and a b = io_bind a (\<lambda>x. if x then b else io_return False)"

definition io_or :: "bool io \<Rightarrow> bool io \<Rightarrow> bool io" where
  "io_or a b = io_bind a (\<lambda>x. if x then io_return True else b)"

text \<open>
  A callable maps a path to the truth value of what it returns (\<open>Inr\<close>), or to
  the exception it raises (\<open>Inl\<close>). The argument \<^verbatim>\<open>include_filter\<close> or
  \<^verbatim>\<open>exclude_filter\<close> is \<^verbatim>\<open>None\<close>, a callable, or, since nothing checks it, a value
  that cannot be called (\<open>FOther\<close>, an \<^verbatim>\<open>int\<close> say).
\<close>

type_synonym callback = "string \<Rightarrow> error + bool"

datatype pyfilter =
    FNone
  | FCallable callback
  | FOther

fun filter_is_none :: "pyfilter \<Rightarrow> bool" where
  "filter_is_none FNone = True"
| "filter_is_none flt = False"

text \<open>
  The call \<^verbatim>\<open>filter(filepath)\<close>: what the callable returns or raises, unchanged;
  \<open>TypeError\<close> from the interpreter when the value is not callable. The event is
  logged in both cases.
\<close>

definition call_outcome :: "pyfilter \<Rightarrow> string \<Rightarrow> error + bool" where
  "call_outcome flt filepath =
     (case flt of FCallable f \<Rightarrow> f filepath | _ \<Rightarrow> Inl TypeError)"

definition call_filter :: "event \<Rightarrow> pyfilter \<Rightarrow> string \<Rightarrow> bool io" where
  "call_filter ev flt filepath = ([ev], call_outcome flt filepath)"

section \<open>\<^verbatim>\<open>search_files\<close>\<close>

record config =
  include_directory :: pyobj
  include_pattern :: pyobj
  include_start :: pyobj
  include_content :: pyobj
  include_end :: pyobj
  include_extension :: pyobj
  include_filter :: pyfilter
  exclude_subdirectory :: pyobj
  exclude_pattern :: pyobj
  exclude_start :: pyobj
  exclude_content :: pyobj
  exclude_end :: pyobj
  exclude_extension :: pyobj
  exclude_filter :: pyfilter

definition check_type_union :: "pyobj \<Rightarrow> bool" where
  "check_type_union obj =
     (case obj of
        PNone \<Rightarrow> True
      | PStr s \<Rightarrow> True
      | PList xs \<Rightarrow> list_all is_str xs
      | PTuple xs \<Rightarrow> list_all is_str xs
      | PInt n \<Rightarrow> False)"

definition data_to_list :: "pyobj \<Rightarrow> pyobj" where
  "data_to_list obj =
     (case obj of
        PNone \<Rightarrow> PList []
      | PStr s \<Rightarrow> PList [PStr s]
      | _ \<Rightarrow> obj)"

text \<open>Iterating over a list or a tuple; \<open>strs\<close> are its strings, in order.\<close>

fun items :: "pyobj \<Rightarrow> pyobj list" where
  "items (PList xs) = xs"
| "items (PTuple xs) = xs"
| "items v = []"

definition strs :: "pyobj \<Rightarrow> string list" where
  "strs obj = [s. PStr s \<leftarrow> items obj]"

text \<open>\<^verbatim>\<open>any(re.match(p, filename) for p in patterns)\<close>: it stops at the first match.\<close>

fun any_re_match :: "host \<Rightarrow> string list \<Rightarrow> string \<Rightarrow> bool io" where
  "any_re_match h [] filename = io_return False"
| "any_re_match h (p # ps) filename =
     (case re_match h p filename of
        Inl e \<Rightarrow> io_raise e
      | Inr True \<Rightarrow> io_return True
      | Inr False \<Rightarrow> any_re_match h ps filename)"

definition matches_criteria ::
  "host \<Rightarrow> string \<Rightarrow> string list \<Rightarrow> string list \<Rightarrow> string list \<Rightarrow> string list \<Rightarrow> string list
     \<Rightarrow> pyfilter \<Rightarrow> bool io" where
  "matches_criteria h filepath patterns starts cont ends exts flt =
     (case extract_file_components (PStr filepath) of
        Inl e \<Rightarrow> io_raise e
      | Inr (path, filename, extension) \<Rightarrow>
          io_and (io_return (starts = [] \<or> list_ex (\<lambda>s. startswith filename s) starts))
         (io_and (io_return (cont = [] \<or> list_ex (\<lambda>c. str_contains filename c) cont))
         (io_and (io_return (ends = [] \<or> list_ex (\<lambda>e. endswith filename e) ends))
         (io_and (io_return (exts = [] \<or> list_ex (\<lambda>e. extension = e) exts))
         (io_and (io_or (io_return (patterns = [])) (any_re_match h patterns filename))
                 (io_or (io_return (filter_is_none flt))
                        (call_filter (IncludeCall filepath) flt filepath)))))))"

definition matches_exclusion_criteria ::
  "host \<Rightarrow> string \<Rightarrow> string list \<Rightarrow> string list \<Rightarrow> string list \<Rightarrow> string list \<Rightarrow> string list
     \<Rightarrow> pyfilter \<Rightarrow> bool io" where
  "matches_exclusion_criteria h filepath patterns starts cont ends exts flt =
     (case extract_file_components (PStr filepath) of
        Inl e \<Rightarrow> io_raise e
      | Inr (path, filename, extension) \<Rightarrow>
          io_or (io_return (starts \<noteq> [] \<and> list_ex (\<lambda>s. startswith filename s) starts))
         (io_or (io_return (cont \<noteq> [] \<and> list_ex (\<lambda>c. str_contains filename c) cont))
         (io_or (io_return (ends \<noteq> [] \<and> list_ex (\<lambda>e. endswith filename e) ends))
         (io_or (io_return (exts \<noteq> [] \<and> list_ex (\<lambda>e. extension = e) exts))
         (io_or (io_and (io_return (patterns \<noteq> [])) (any_re_match h patterns filename))
                (io_and (io_return (\<not> filter_is_none flt))
                        (call_filter (ExcludeCall filepath) flt filepath)))))))"

text \<open>
  The local variables of \<^verbatim>\<open>search_files\<close> after the conversion to lists, which
  the loops read.
\<close>

record lists =
  include_pattern_l :: "string list"
  include_start_l :: "string list"
  include_content_l :: "string list"
  include_end_l :: "string list"
  include_extension_l :: "string list"
  include_filter_l :: pyfilter
  exclude_subdirectory_l :: "string list"
  exclude_pattern_l :: "string list"
  exclude_start_l :: "string list"
  exclude_content_l :: "string list"
  exclude_end_l :: "string list"
  exclude_extension_l :: "string list"
  exclude_filter_l :: pyfilter

definition convert :: "config \<Rightarrow> lists" where
  "convert c =
     \<lparr> include_pattern_l = strs (data_to_list (include_pattern c)),
       include_start_l = strs (data_to_list (include_start c)),
       include_content_l = strs (data_to_list (include_content c)),
       include_end_l = strs (data_to_list (include_end c)),
       include_extension_l = strs (data_to_list (include_extension c)),
       include_filter_l = include_filter c,
       exclude_subdirectory_l = strs (data_to_list (exclude_subdirectory c)),
       exclude_pattern_l = strs (data_to_list (exclude_pattern c)),
       exclude_start_l = strs (data_to_list (exclude_start c)),
       exclude_content_l = strs (data_to_list (exclude_content c)),
       exclude_end_l = strs (data_to_list (exclude_end c)),
       exclude_extension_l = strs (data_to_list (exclude_extension c)),
       exclude_filter_l = exclude_filter c \<rparr>"

text \<open>
  \<^verbatim>\<open>
  if len(include_directory) == 0:
      include_directory.append(os.getcwd())
  \<close>
  A tuple has no \<^verbatim>\<open>append\<close>: the attribute is looked up before the argument is
  evaluated.
\<close>

definition default_directory :: "host \<Rightarrow> pyobj \<Rightarrow> string list io" where
  "default_directory h include_directory_l =
     (if length (items include_directory_l) = 0
      then (case include_directory_l of
              PList xs \<Rightarrow> io_bind (io_emit Getcwd) (\<lambda>u. io_return [getcwd h])
            | _ \<Rightarrow> io_raise AttributeError)
      else io_return (strs include_directory_l))"

text \<open>
  \<^verbatim>\<open>
  for directory in include_directory:
      if not os.path.isdir(directory):
          raise FileNotFoundError(f'The {directory=} is not found.')
  \<close>
\<close>

fun check_directories :: "host \<Rightarrow> string list \<Rightarrow> unit io" where
  "check_directories h [] = io_return ()"
| "check_directories h (directory # rest) =
     io_bind (io_emit (Isdir directory)) (\<lambda>u.
       if \<not> isdir h directory then io_raise (FileNotFoundError directory)
       else check_directories h rest)"

text \<open>The three nested loops, innermost first; \<open>acc\<close> is \<^verbatim>\<open>list_filepaths\<close>.\<close>

definition excluded_root :: "lists \<Rightarrow> string \<Rightarrow> bool" where
  "excluded_root l root =
     (exclude_subdirectory_l l \<noteq> [] \<and>
      list_ex (\<lambda>excluded. str_contains root excluded) (exclude_subdirectory_l l))"

definition keep_file :: "host \<Rightarrow> lists \<Rightarrow> string \<Rightarrow> bool io" where
  "keep_file h l filepath =
     io_and
       (matches_criteria h filepath (include_pattern_l l) (include_start_l l)
          (include_content_l l) (include_end_l l) (include_extension_l l) (include_filter_l l))
       (io_bind
          (matches_exclusion_criteria h filepath (exclude_pattern_l l) (exclude_start_l l)
             (exclude_content_l l) (exclude_end_l l) (exclude_extension_l l) (exclude_filter_l l))
          (\<lambda>x. io_return (\<not> x)))"

fun file_loop :: "host \<Rightarrow> lists \<Rightarrow> string \<Rightarrow> string list \<Rightarrow> string list \<Rightarrow> string list io" where
  "file_loop h l root [] acc = io_return acc"
| "file_loop h l root (file # rest) acc =
     (let filepath = join root file in
      io_bind (keep_file h l filepath) (\<lambda>k.
        file_loop h l root rest (if k then acc @ [filepath] else acc)))"

fun walk_loop ::
  "host \<Rightarrow> lists \<Rightarrow> (string \<times> string list \<times> string list) list \<Rightarrow> string list \<Rightarrow> string list io" where
  "walk_loop h l [] acc = io_return acc"
| "walk_loop h l ((root, dirs, files) # rest) acc =
     io_bind (io_emit (Scandir root)) (\<lambda>u.
       if excluded_root l root then walk_loop h l rest acc
       else io_bind (file_loop h l root files acc) (\<lambda>acc'. walk_loop h l rest acc'))"

fun directory_loop :: "host \<Rightarrow> lists \<Rightarrow> string list \<Rightarrow> string list \<Rightarrow> string list io" where
  "directory_loop h l [] acc = io_return acc"
| "directory_loop h l (directory # rest) acc =
     io_bind (walk_loop h l (os_walk h directory) acc) (\<lambda>acc'. directory_loop h l rest acc')"

definition search_files :: "host \<Rightarrow> config \<Rightarrow> string list io" where
  "search_files h c =
     (if \<not> list_all check_type_union
            [include_directory c, include_pattern c, include_start c, include_content c,
             include_end c, include_extension c, exclude_subdirectory c, exclude_pattern c,
             exclude_start c, exclude_content c, exclude_end c, exclude_extension c]
      then io_raise TypeError
      else
        io_bind (default_directory h (data_to_list (include_directory c))) (\<lambda>directories.
        io_bind (check_directories h directories) (\<lambda>u.
        directory_loop h (convert c) directories [])))"


section \<open>The criteria, as the specification words them\<close>

text \<open>
  A group of constraints holds for an inclusion when it is empty or one of its
  elements matches.
\<close>

definition group_ok :: "('a \<Rightarrow> bool) \<Rightarrow> 'a list \<Rightarrow> bool" where
  "group_ok matched xs = (xs = [] \<or> (\<exists>x\<in>set xs. matched x))"

text \<open>
  The base-name and the extension of a path: the second and third component
  that \<^verbatim>\<open>extract_file_components\<close> returns.
\<close>

definition base_name :: "string \<Rightarrow> string" where
  "base_name filepath = fst (splitext (snd (split filepath)))"

definition extension_of :: "string \<Rightarrow> string" where
  "extension_of filepath = snd (splitext (snd (split filepath)))"

text \<open>A pattern matches a name when \<^verbatim>\<open>re.match\<close> returns a match object.\<close>

definition pattern_matches :: "host \<Rightarrow> string \<Rightarrow> string \<Rightarrow> bool" where
  "pattern_matches h s p = (re_match h p s = Inr True)"

text \<open>
  The string groups of the two criteria sets (start, content, end, extension,
  pattern), then the sets with their custom predicate: the inclusion set holds
  when every group holds and the predicate, if there is one, returns true; a
  path escapes the exclusion set when no group has a matching element and the
  predicate, if there is one, returns false.
\<close>

definition predicate_returns :: "pyfilter \<Rightarrow> string \<Rightarrow> bool \<Rightarrow> bool" where
  "predicate_returns flt filepath b =
     (case flt of FCallable f \<Rightarrow> f filepath = Inr b | _ \<Rightarrow> False)"

definition include_strings_ok :: "host \<Rightarrow> string \<Rightarrow> string list \<Rightarrow> string list \<Rightarrow> string list \<Rightarrow> string list \<Rightarrow> string list \<Rightarrow> bool" where
  "include_strings_ok h filepath patterns starts cont ends exts =
     (group_ok (startswith (base_name filepath)) starts \<and>
      group_ok (str_contains (base_name filepath)) cont \<and>
      group_ok (endswith (base_name filepath)) ends \<and>
      group_ok (\<lambda>e. extension_of filepath = e) exts \<and>
      group_ok (pattern_matches h (base_name filepath)) patterns)"

definition exclude_strings_hit :: "host \<Rightarrow> string \<Rightarrow> string list \<Rightarrow> string list \<Rightarrow> string list \<Rightarrow> string list \<Rightarrow> string list \<Rightarrow> bool" where
  "exclude_strings_hit h filepath patterns starts cont ends exts =
     ((\<exists>s\<in>set starts. startswith (base_name filepath) s) \<or>
      (\<exists>c\<in>set cont. str_contains (base_name filepath) c) \<or>
      (\<exists>e\<in>set ends. endswith (base_name filepath) e) \<or>
      (\<exists>e\<in>set exts. extension_of filepath = e) \<or>
      (\<exists>p\<in>set patterns. pattern_matches h (base_name filepath) p))"

definition satisfies_inclusion :: "host \<Rightarrow> lists \<Rightarrow> string \<Rightarrow> bool" where
  "satisfies_inclusion h l filepath =
     (include_strings_ok h filepath (include_pattern_l l) (include_start_l l) (include_content_l l)
        (include_end_l l) (include_extension_l l) \<and>
      (filter_is_none (include_filter_l l) \<or> predicate_returns (include_filter_l l) filepath True))"

definition not_excluded :: "host \<Rightarrow> lists \<Rightarrow> string \<Rightarrow> bool" where
  "not_excluded h l filepath =
     (\<not> exclude_strings_hit h filepath (exclude_pattern_l l) (exclude_start_l l) (exclude_content_l l)
        (exclude_end_l l) (exclude_extension_l l) \<and>
      (filter_is_none (exclude_filter_l l) \<or> predicate_returns (exclude_filter_l l) filepath False))"

text \<open>
  The path of a directory contains one of the \<^verbatim>\<open>exclude_subdirectory\<close> fragments;
  the root directories a call searches.
\<close>

definition in_pruned :: "lists \<Rightarrow> string \<Rightarrow> bool" where
  "in_pruned l root = (\<exists>x\<in>set (exclude_subdirectory_l l). str_contains root x)"

definition root_directories :: "host \<Rightarrow> config \<Rightarrow> string list" where
  "root_directories h c =
     (if strs (data_to_list (include_directory c)) = [] then [getcwd h]
      else strs (data_to_list (include_directory c)))"

text \<open>
  \<open>include_pure\<close> and \<open>exclude_pure\<close> are the groups that need neither the
  regular expressions nor a custom predicate; a path is \<open>selected\<close> when it
  satisfies the inclusion set and escapes the exclusion set; \<open>selected_in\<close> are
  the paths one visited directory gives.
\<close>

definition include_pure :: "string \<Rightarrow> string list \<Rightarrow> string list \<Rightarrow> string list \<Rightarrow> string list \<Rightarrow> bool" where
  "include_pure filepath starts cont ends exts =
     (group_ok (startswith (base_name filepath)) starts \<and>
      group_ok (str_contains (base_name filepath)) cont \<and>
      group_ok (endswith (base_name filepath)) ends \<and>
      group_ok (\<lambda>e. extension_of filepath = e) exts)"

definition exclude_pure :: "string \<Rightarrow> string list \<Rightarrow> string list \<Rightarrow> string list \<Rightarrow> string list \<Rightarrow> bool" where
  "exclude_pure filepath starts cont ends exts =
     ((\<exists>s\<in>set starts. startswith (base_name filepath) s) \<or>
      (\<exists>c\<in>set cont. str_contains (base_name filepath) c) \<or>
      (\<exists>e\<in>set ends. endswith (base_name filepath) e) \<or>
      (\<exists>e\<in>set exts. extension_of filepath = e))"

definition selected :: "host \<Rightarrow> lists \<Rightarrow> string \<Rightarrow> bool" where
  "selected h l filepath = (satisfies_inclusion h l filepath \<and> not_excluded h l filepath)"

definition selected_in :: "host \<Rightarrow> lists \<Rightarrow> string \<times> string list \<times> string list \<Rightarrow> string list" where
  "selected_in h l visit =
     (case visit of (root, dirs, files) \<Rightarrow>
        if in_pruned l root then [] else filter (selected h l) (map (join root) files))"

text \<open>
  In a file system the name of a directory entry is not empty and has no
  separator. \<open>subtrees topdir n\<close> are the directories that \<^verbatim>\<open>os.walk\<close> reaches from
  \<open>topdir\<close>, each with its path. \<open>io_log evs x\<close> logs \<open>evs\<close> and returns \<open>x\<close>.
\<close>

fun valid_node :: "node \<Rightarrow> bool" where
  "valid_node (Dir es) = list_all (\<lambda>e. fst e \<noteq> [] \<and> sep \<notin> set (fst e) \<and> valid_node (snd e)) es"
| "valid_node File = True"
| "valid_node DirLink = True"

fun subtrees :: "string \<Rightarrow> node \<Rightarrow> (string \<times> node) list" where
  "subtrees topdir (Dir es) =
     (topdir, Dir es)
     # concat (map (\<lambda>e. case snd e of Dir sub \<Rightarrow> subtrees (join topdir (fst e)) (snd e) | _ \<Rightarrow> []) es)"
| "subtrees topdir File = []"
| "subtrees topdir DirLink = []"

definition io_log :: "event list \<Rightarrow> 'a \<Rightarrow> 'a io" where
  "io_log evs x = (evs, Inr x)"

definition valid_at :: "host \<Rightarrow> string \<Rightarrow> bool" where
  "valid_at h d = (case lookup h d of None \<Rightarrow> True | Some n \<Rightarrow> valid_node n)"

text \<open>
  An argument conforms when it is absent, a string, or a sequence (a list or a
  tuple) of strings; a configuration is well typed when the twelve arguments
  other than the two custom predicates conform. \<open>declared_roots\<close> are the
  strings given as \<^verbatim>\<open>include_directory\<close>.
\<close>

definition is_sequence :: "pyobj \<Rightarrow> bool" where
  "is_sequence v = (case v of PList xs \<Rightarrow> True | PTuple xs \<Rightarrow> True | _ \<Rightarrow> False)"

definition conforms :: "pyobj \<Rightarrow> bool" where
  "conforms v = (v = PNone \<or> is_str v \<or> (is_sequence v \<and> (\<forall>x\<in>set (items v). is_str x)))"

definition well_typed :: "config \<Rightarrow> bool" where
  "well_typed c =
     (conforms (include_directory c) \<and> conforms (include_pattern c) \<and>
      conforms (include_start c) \<and> conforms (include_content c) \<and>
      conforms (include_end c) \<and> conforms (include_extension c) \<and>
      conforms (exclude_subdirectory c) \<and> conforms (exclude_pattern c) \<and>
      conforms (exclude_start c) \<and> conforms (exclude_content c) \<and>
      conforms (exclude_end c) \<and> conforms (exclude_extension c))"

definition declared_roots :: "config \<Rightarrow> string list" where
  "declared_roots c = strs (data_to_list (include_directory c))"

text \<open>
  A regular expression matches at the start of \<open>s\<close> when a match that begins at
  position zero ends somewhere in \<open>s\<close>, not necessarily at its end; a pattern
  does when it compiles to such an expression.
\<close>

definition match_at_start :: "regex \<Rightarrow> string \<Rightarrow> bool" where
  "match_at_start r s = (\<exists>k\<in>set (match_ends r s 0). k \<le> length s)"

definition pattern_match_at_start :: "host \<Rightarrow> string \<Rightarrow> string \<Rightarrow> bool" where
  "pattern_match_at_start h p s =
     (case re_compile h p of None \<Rightarrow> False | Some r \<Rightarrow> match_at_start r s)"


text \<open>
  The same criteria read from the arguments as the caller declared them. An
  absent argument declares nothing, a single string declares itself, a
  sequence declares its strings. \<open>meets_inclusion\<close>, \<open>escapes_exclusion\<close>,
  \<open>under_excluded\<close> and \<open>searched_roots\<close> are stated on the configuration of the
  call, without the conversion that \<^verbatim>\<open>search_files\<close> makes.
\<close>

fun declared :: "pyobj \<Rightarrow> string list" where
  "declared PNone = []"
| "declared (PStr s) = [s]"
| "declared (PList xs) = [s. PStr s \<leftarrow> xs]"
| "declared (PTuple xs) = [s. PStr s \<leftarrow> xs]"
| "declared (PInt n) = []"




definition searched_roots :: "host \<Rightarrow> config \<Rightarrow> string list" where
  "searched_roots h c =
     (if declared (include_directory c) = [] then [getcwd h] else declared (include_directory c))"

text \<open>
  An event is the call of a custom predicate that ended in \<open>TypeError\<close>: the
  value was not callable, or the callable raised it. \<open>fi\<close> and \<open>fe\<close> are
  \<^verbatim>\<open>include_filter\<close> and \<^verbatim>\<open>exclude_filter\<close>.
\<close>

definition raises_type_error :: "pyfilter \<Rightarrow> string \<Rightarrow> bool" where
  "raises_type_error flt p = (\<not> filter_is_none flt \<and> call_outcome flt p = Inl TypeError)"

definition type_error_call :: "pyfilter \<Rightarrow> pyfilter \<Rightarrow> event \<Rightarrow> bool" where
  "type_error_call fi fe ev =
     (case ev of
        IncludeCall p \<Rightarrow> raises_type_error fi p
      | ExcludeCall p \<Rightarrow> raises_type_error fe p
      | _ \<Rightarrow> False)"

text \<open>
  \<open>late fi fe m\<close>: if the computation \<open>m\<close> ends in \<open>TypeError\<close>, the last thing it
  did was such a call.
\<close>

definition late :: "pyfilter \<Rightarrow> pyfilter \<Rightarrow> 'a io \<Rightarrow> bool" where
  "late fi fe m =
     (snd m = Inl TypeError \<longrightarrow> fst m \<noteq> [] \<and> type_error_call fi fe (last (fst m)))"

section \<open>Example inputs\<close>

text \<open>\<open>no_filters\<close> is the call without arguments: every keyword has its default.\<close>

definition no_filters :: config where
  "no_filters =
     \<lparr> include_directory = PNone, include_pattern = PNone, include_start = PNone,
       include_content = PNone, include_end = PNone, include_extension = PNone,
       include_filter = FNone, exclude_subdirectory = PNone, exclude_pattern = PNone,
       exclude_start = PNone, exclude_content = PNone, exclude_end = PNone,
       exclude_extension = PNone, exclude_filter = FNone \<rparr>"

definition example_tree :: node where
  "example_tree =
     Dir [(''a.py'', File), (''b.txt'', File),
          (''sub'', Dir [(''c.py'', File), (''deep'', Dir [(''e.py'', File)])]),
          (''subdirectory'', Dir [(''d.py'', File)])]"

definition report_tree :: node where
  "report_tree = Dir [(''report_final.txt'', File), (''report_draft.txt'', File), (''notes.txt'', File)]"

definition home_tree :: node where
  "home_tree = Dir [(''a.py'', File)]"

text \<open>
  The pattern \<^verbatim>\<open>^data\d+$\<close> (the backslash is character \<open>0x5C\<close>) and the regular
  expression it compiles to; \<open>literal s\<close> matches the characters of \<open>s\<close> in turn.
\<close>

definition digit :: "char \<Rightarrow> bool" where
  "digit c = (c \<in> set ''0123456789'')"

definition literal :: "string \<Rightarrow> regex" where
  "literal s = foldr (\<lambda>c r. Seq (Sym (\<lambda>x. x = c)) r) s Eps"

definition data_pattern :: string where
  "data_pattern = ''^data'' @ [CHR 0x5C] @ ''d+$''"

definition data_regex :: regex where
  "data_regex = Seq Bos (Seq (literal ''data'') (Seq (Sym digit) (Seq (Star (Sym digit)) Eos)))"

definition data_tree :: node where
  "data_tree = Dir [(''data1.csv'', File), (''data23.csv'', File), (''mydata1.csv'', File)]"

text \<open>A tree and a call in which each of the thirteen criteria decides for some file.\<close>

definition full_tree :: node where
  "full_tree =
     Dir [(''data1.csv'', File), (''data2.txt'', File), (''mydata3.csv'', File),
          (''data4_old.csv'', File), (''data_tmp5.csv'', File),
          (''skip'', Dir [(''data6.csv'', File)]),
          (''data7.csv'', File), (''data8.csv'', File), (''date9.csv'', File),
          (''data10.bak'', File), (''xdata11.csv'', File), (''data12x.csv'', File),
          (''da13.csv'', File), (''daat14.csv'', File)]"


definition example_host :: host where
  "example_host =
     \<lparr> getcwd = ''/home/u'',
       lookup = (\<lambda>p. if p = ''/r'' then Some example_tree
                    else if p = ''/reports'' then Some report_tree
                    else if p = ''/data'' then Some data_tree
                    else if p = ''/w'' then Some full_tree
                    else if p = ''/home/u'' \<or> p = ''.'' then Some home_tree
                    else if p = ''/r/a.py'' then Some File
                    else None),
       re_compile = (\<lambda>p. if p = data_pattern then Some data_regex
                        else if p = ''data'' \<or> p = ''my'' \<or> p = ''dat'' then Some (literal p)
                        else None) \<rparr>"


definition sub_config :: config where
  "sub_config =
     no_filters\<lparr> include_directory := PStr ''/r'', exclude_subdirectory := PList [PStr ''sub''] \<rparr>"

definition rel_config :: config where
  "rel_config = no_filters\<lparr> include_directory := PStr ''.'' \<rparr>"

definition absolute_roots_config :: config where
  "absolute_roots_config =
     no_filters\<lparr> include_directory := PList [PStr ''/reports'', PStr ''/home/u''] \<rparr>"

definition mixed_roots_config :: config where
  "mixed_roots_config =
     no_filters\<lparr> include_directory := PTuple [PStr ''.'', PStr ''/home/u''] \<rparr>"

definition empty_fragment_config :: config where
  "empty_fragment_config =
     no_filters\<lparr> include_directory := PStr ''/r'', exclude_subdirectory := PStr [] \<rparr>"


text \<open>A custom predicate that raises on every path.\<close>

definition boom :: callback where
  "boom p = Inl (OtherError ''boom'')"


definition missing_root_config :: config where
  "missing_root_config =
     no_filters\<lparr> include_directory := PList [PStr ''/r'', PStr ''/r/a.py'', PStr ''/nope''] \<rparr>"


section \<open>Path lemmas\<close>


lemma rfind_bounds: "- 1 \<le> rfind p c \<and> rfind p c < int (length p)"
  by (induction p) (auto simp: Let_def)

lemma rfind_notin: "c \<notin> set (drop (nat (rfind p c + 1)) p)"
proof (induction p)
  case Nil
  then show ?case by simp
next
  case (Cons x xs)
  have b: "- 1 \<le> rfind xs c" using rfind_bounds by blast
  show ?case
  proof (cases "0 \<le> rfind xs c")
    case True
    then have "nat (rfind (x # xs) c + 1) = Suc (nat (rfind xs c + 1))" by (simp add: Let_def nat_add_distrib)
    with Cons show ?thesis by simp
  next
    case False
    with b have e: "rfind xs c = - 1" by simp
    with Cons have "c \<notin> set xs" by simp
    with e show ?thesis by (auto simp: Let_def)
  qed
qed

lemma rfind_head: "0 \<le> rfind p c \<Longrightarrow> \<exists>h. take (nat (rfind p c + 1)) p = h @ [c]"
proof (induction p)
  case Nil
  then show ?case by simp
next
  case (Cons x xs)
  show ?case
  proof (cases "0 \<le> rfind xs c")
    case True
    then have n: "nat (rfind (x # xs) c + 1) = Suc (nat (rfind xs c + 1))" by (simp add: Let_def nat_add_distrib)
    from Cons.IH[OF True] obtain h where "take (nat (rfind xs c + 1)) xs = h @ [c]" by blast
    with n have "take (nat (rfind (x # xs) c + 1)) (x # xs) = (x # h) @ [c]" by simp
    then show ?thesis by blast
  next
    case False
    with Cons.prems have "x = c" "rfind (x # xs) c = 0" by (auto simp: Let_def split: if_splits)
    then show ?thesis by simp
  qed
qed

lemma splitext_concat: "splitext t = (r, e) \<Longrightarrow> r @ e = t"
  by (auto simp: splitext_def Let_def split: if_splits)

lemma squeeze_dup: "squeeze (xs @ sep # sep # ys) = squeeze (xs @ sep # ys)"
  by (induction xs rule: squeeze.induct) simp_all


lemma takeWhile_eq_replicate: "takeWhile (\<lambda>x. x = c) xs = replicate (length (takeWhile (\<lambda>x. x = c) xs)) c"
  by (induction xs) auto

lemma rstrip_decomp: "\<exists>n. s = rstrip s c @ replicate n c"
proof -
  let ?P = "\<lambda>x. x = c"
  have "rev (takeWhile ?P (rev s) @ dropWhile ?P (rev s)) = rev (rev s)"
    by (simp only: takeWhile_dropWhile_id)
  then have "s = rstrip s c @ rev (takeWhile ?P (rev s))"
    by (simp only: rev_append rev_rev_ident rstrip_def)
  moreover have "rev (takeWhile ?P (rev s)) = replicate (length (takeWhile ?P (rev s))) c"
    using takeWhile_eq_replicate[of c "rev s"] by (metis rev_replicate)
  ultimately show ?thesis by metis
qed

lemma rstrip_last: "rstrip s c \<noteq> [] \<Longrightarrow> last (rstrip s c) \<noteq> c"
  unfolding rstrip_def by (metis (mono_tags, lifting) hd_dropWhile last_rev rev_is_Nil_conv)

lemma rstrip_nonempty: "s \<noteq> replicate (length s) c \<Longrightarrow> rstrip s c \<noteq> []"
proof
  assume a: "s \<noteq> replicate (length s) c" and e: "rstrip s c = []"
  from rstrip_decomp[of s c] obtain n where n: "s = rstrip s c @ replicate n c" by blast
  with e have "s = replicate n c" by simp
  then have "s = replicate (length s) c" by (metis length_replicate)
  with a show False by simp
qed

lemma squeeze_run: "squeeze (xs @ replicate (Suc n) sep @ ys) = squeeze (xs @ sep # ys)"
proof (induction n)
  case 0
  then show ?case by simp
next
  case (Suc n)
  have "squeeze (xs @ replicate (Suc (Suc n)) sep @ ys) = squeeze (xs @ sep # sep # (replicate n sep @ ys))" by simp
  also have "\<dots> = squeeze (xs @ sep # (replicate n sep @ ys))" by (rule squeeze_dup)
  also have "\<dots> = squeeze (xs @ replicate (Suc n) sep @ ys)" by simp
  finally show ?case using Suc by simp
qed

lemma path_equiv_refl: "path_equiv p p"
  by (simp add: path_equiv_def)

lemma split_join: "split p = (d, t) \<Longrightarrow> path_equiv (join d t) p"
proof -
  assume sp: "split p = (d, t)"
  define i where "i = nat (rfind p sep + 1)"
  define H where "H = take i p"
  have t: "t = drop i p" using sp by (auto simp: split_def Let_def i_def split: if_splits)
  have p: "p = H @ t" by (simp add: H_def t)
  have nosep: "sep \<notin> set t" unfolding t i_def by (rule rfind_notin)
  then have nst: "\<not> startswith t [sep]" by (auto simp: startswith_def prefix_def)
  show ?thesis
  proof (cases "H \<noteq> [] \<and> H \<noteq> replicate (length H) sep")
    case False
    then have d: "d = H" using sp by (auto simp: split_def Let_def i_def H_def split: if_splits)
    show ?thesis
    proof (cases "H = []")
      case True
      with d p nst show ?thesis by (simp add: join_def path_equiv_refl)
    next
      case False
      have "0 \<le> rfind p sep"
      proof (rule ccontr)
        assume "\<not> 0 \<le> rfind p sep"
        then have "i = 0" by (simp add: i_def)
        with False show False by (simp add: H_def)
      qed
      from rfind_head[OF this] obtain h where "H = h @ [sep]" by (auto simp: H_def i_def)
      then have "endswith H [sep]" by (simp add: endswith_def suffix_def)
      with d p nst show ?thesis by (simp add: join_def path_equiv_refl)
    qed
  next
    case True
    then have d: "d = rstrip H sep" using sp by (auto simp: split_def Let_def i_def H_def split: if_splits)
    from True have dne: "d \<noteq> []" unfolding d by (simp add: rstrip_nonempty)
    then have dl: "last d \<noteq> sep" unfolding d by (rule rstrip_last)
    then have ne: "\<not> endswith d [sep]" using dne by (auto simp: endswith_def suffix_def)
    from rstrip_decomp[of H sep] obtain n where n: "H = d @ replicate n sep" unfolding d by blast
    have "0 \<le> rfind p sep"
    proof (rule ccontr)
      assume "\<not> 0 \<le> rfind p sep"
      then have "i = 0" by (simp add: i_def)
      with True show False by (simp add: H_def)
    qed
    from rfind_head[OF this] obtain h where h: "H = h @ [sep]" by (auto simp: H_def i_def)
    have "n \<noteq> 0"
    proof
      assume "n = 0"
      with n h have "d = h @ [sep]" by simp
      with dl show False by simp
    qed
    then obtain m where m: "n = Suc m" by (cases n) auto
    have j: "join d t = d @ sep # t" using nst dne ne by (simp add: join_def)
    have pp: "p = d @ replicate (Suc m) sep @ t" using p n m by simp
    have ex: "\<exists>x\<in>set d. \<not> x = sep" using dne dl by (metis last_in_set)
    have tw: "takeWhile (\<lambda>x. x = sep) (d @ ys) = takeWhile (\<lambda>x. x = sep) d" for ys
      using ex by (auto simp: takeWhile_append1)
    have "squeeze (d @ sep # t) = squeeze p" by (subst pp) (rule squeeze_run[symmetric])
    moreover have "takeWhile (\<lambda>x. x = sep) (d @ sep # t) = takeWhile (\<lambda>x. x = sep) p"
      by (subst pp) (simp only: tw)
    ultimately show ?thesis by (simp add: path_equiv_def j)
  qed
qed

lemma extract_str: "\<exists>d b e. extract_file_components (PStr P) = Inr (d, b, e) \<and> split P = (d, b @ e) \<and> splitext (snd (split P)) = (b, e)"
  by (cases "split P"; cases "splitext (snd (split P))") (auto simp: extract_file_components_def dest: splitext_concat)

text \<open>
  C8. For every string \<open>P\<close>, \<^verbatim>\<open>extract_file_components\<close> returns a triple
  (directory, base-name, extension), and joining the directory with the
  base-name followed by the extension, by \<^verbatim>\<open>os.path.join\<close>, gives a path
  equivalent to \<open>P\<close> (also when \<open>P\<close> has no directory component, where the join
  gives \<open>P\<close> itself); for every input that is not a string the call raises
  \<open>TypeError\<close>.
\<close>

theorem extract_file_components_roundtrip:
  "(\<forall>P. \<exists>d b e. extract_file_components (PStr P) = Inr (d, b, e) \<and> path_equiv (join d (b @ e)) P)
   \<and> (\<forall>v. \<not> is_str v \<longrightarrow> extract_file_components v = Inl TypeError)"
proof (intro conjI allI impI)
  fix P
  from extract_str[of P] obtain d b e where
    "extract_file_components (PStr P) = Inr (d, b, e)" "split P = (d, b @ e)" by blast
  then show "\<exists>d b e. extract_file_components (PStr P) = Inr (d, b, e) \<and> path_equiv (join d (b @ e)) P"
    using split_join by blast
next
  fix v assume "\<not> is_str v"
  then show "extract_file_components v = Inl TypeError"
    by (cases v) (simp_all add: extract_file_components_def)
qed


theorem extract_file_components_roundtrip_witness:
  "extract_file_components (PStr ''/x//name.txt'') = Inr (''/x'', ''name'', ''.txt'')
   \<and> path_equiv (join ''/x'' (''name'' @ ''.txt'')) ''/x//name.txt''
   \<and> \<not> is_str (PInt 3) \<and> extract_file_components (PInt 3) = Inl TypeError"
proof -
  have e: "extract_file_components (PStr ''/x//name.txt'') = Inr (''/x'', ''name'', ''.txt'')"
    by code_simp
  from extract_file_components_roundtrip obtain d b x where
    "extract_file_components (PStr ''/x//name.txt'') = Inr (d, b, x)"
    "path_equiv (join d (b @ x)) ''/x//name.txt''"
    by blast
  with e have p: "path_equiv (join ''/x'' (''name'' @ ''.txt'')) ''/x//name.txt''" by simp
  have n: "\<not> is_str (PInt 3)" by simp
  with extract_file_components_roundtrip have "extract_file_components (PInt 3) = Inl TypeError"
    by blast
  with e p n show ?thesis by blast
qed


section \<open>Laws of the effect combinators\<close>

lemma io_bind_return [simp]: "io_bind (io_return x) f = f x"
  by (simp add: io_bind_def io_return_def split: prod.split)

lemma io_bind_raise [simp]: "io_bind (io_raise e) f = io_raise e"
  by (simp add: io_bind_def io_raise_def)

lemma io_bind_emit [simp]: "io_bind (io_emit ev) f = (ev # fst (f ()), snd (f ()))"
  by (simp add: io_bind_def io_emit_def split: prod.split)

lemma snd_io_bind: "snd (io_bind m f) = (case snd m of Inl e \<Rightarrow> Inl e | Inr x \<Rightarrow> snd (f x))"
  by (cases m) (auto simp: io_bind_def split: sum.split prod.split)

lemma fst_io_bind: "fst (io_bind m f) = fst m @ (case snd m of Inl e \<Rightarrow> [] | Inr x \<Rightarrow> fst (f x))"
  by (cases m) (auto simp: io_bind_def split: sum.split prod.split)

lemma io_return_simps [simp]: "fst (io_return x) = []" "snd (io_return x) = Inr x"
  by (simp_all add: io_return_def)

lemma io_raise_simps [simp]: "fst (io_raise e) = []" "snd (io_raise e) = Inl e"
  by (simp_all add: io_raise_def)

lemma io_and_return [simp]: "io_and (io_return b) m = (if b then m else io_return False)"
  by (simp add: io_and_def)

lemma io_or_return [simp]: "io_or (io_return b) m = (if b then io_return True else m)"
  by (simp add: io_or_def)

section \<open>What the two criteria functions return\<close>

lemma extract_components:
  "extract_file_components (PStr p) = Inr (fst (split p), base_name p, extension_of p)"
  by (simp add: extract_file_components_def base_name_def extension_of_def split: prod.split)

lemma any_re_match_fst [simp]: "fst (any_re_match h ps s) = []"
  by (induction ps) (auto split: sum.split bool.split)

lemma any_re_match_Inr:
  "snd (any_re_match h ps s) = Inr b \<Longrightarrow> b = (\<exists>p\<in>set ps. pattern_matches h s p)"
  by (induction ps) (auto simp: pattern_matches_def split: sum.splits bool.splits)

lemma list_ex_set: "list_ex P xs = (\<exists>x\<in>set xs. P x)"
  by (simp add: list_ex_iff)


lemma snd_io_and: "snd (io_and a b) = (case snd a of Inl e \<Rightarrow> Inl e | Inr x \<Rightarrow> if x then snd b else Inr False)"
  by (simp add: io_and_def snd_io_bind split: sum.split)

lemma fst_io_and: "fst (io_and a b) = fst a @ (case snd a of Inl e \<Rightarrow> [] | Inr x \<Rightarrow> if x then fst b else [])"
  by (simp add: io_and_def fst_io_bind split: sum.split)

lemma snd_io_or: "snd (io_or a b) = (case snd a of Inl e \<Rightarrow> Inl e | Inr x \<Rightarrow> if x then Inr True else snd b)"
  by (simp add: io_or_def snd_io_bind split: sum.split)

lemma fst_io_or: "fst (io_or a b) = fst a @ (case snd a of Inl e \<Rightarrow> [] | Inr x \<Rightarrow> if x then [] else fst b)"
  by (simp add: io_or_def fst_io_bind split: sum.split)

lemma call_filter_simps [simp]:
  "fst (call_filter ev flt p) = [ev]"
  "snd (call_filter ev flt p) = call_outcome flt p"
  by (simp_all add: call_filter_def)

lemma matches_criteria_normal:
  "matches_criteria h filepath patterns starts cont ends exts flt =
     (if \<not> include_pure filepath starts cont ends exts then io_return False
      else io_and (if patterns = [] then io_return True else any_re_match h patterns (base_name filepath))
             (if filter_is_none flt then io_return True
              else call_filter (IncludeCall filepath) flt filepath))"
  by (simp add: matches_criteria_def extract_components include_pure_def group_ok_def list_ex_set)

lemma matches_exclusion_criteria_normal:
  "matches_exclusion_criteria h filepath patterns starts cont ends exts flt =
     (if exclude_pure filepath starts cont ends exts then io_return True
      else io_or (if patterns = [] then io_return False else any_re_match h patterns (base_name filepath))
             (if filter_is_none flt then io_return False
              else call_filter (ExcludeCall filepath) flt filepath))"
  by (auto simp add: matches_exclusion_criteria_def extract_components exclude_pure_def list_ex_set)

lemma include_strings_ok_alt:
  "include_strings_ok h filepath patterns starts cont ends exts =
     (include_pure filepath starts cont ends exts \<and> group_ok (pattern_matches h (base_name filepath)) patterns)"
  by (auto simp: include_strings_ok_def include_pure_def)

lemma exclude_strings_hit_alt:
  "exclude_strings_hit h filepath patterns starts cont ends exts =
     (exclude_pure filepath starts cont ends exts \<or> (\<exists>p\<in>set patterns. pattern_matches h (base_name filepath) p))"
  by (auto simp: exclude_strings_hit_def exclude_pure_def)

lemma call_outcome_Inr: "(call_outcome flt p = Inr b) = predicate_returns flt p b"
  by (cases flt) (simp_all add: call_outcome_def predicate_returns_def)

lemma predicate_returns_unique:
  "predicate_returns flt p b \<Longrightarrow> predicate_returns flt p b' = (b' = b)"
  by (cases flt) (auto simp: predicate_returns_def)

lemma include_tail_Inr:
  assumes "snd (if filter_is_none flt then io_return True else call_filter ev flt p) = Inr b"
  shows "b = (filter_is_none flt \<or> predicate_returns flt p True)"
proof (cases "filter_is_none flt")
  case True
  with assms show ?thesis by simp
next
  case False
  with assms have "predicate_returns flt p b" by (simp add: call_outcome_Inr)
  from predicate_returns_unique[OF this, of True] False show ?thesis by simp
qed

lemma exclude_tail_Inr:
  assumes "snd (if filter_is_none flt then io_return False else call_filter ev flt p) = Inr b"
  shows "b = (\<not> (filter_is_none flt \<or> predicate_returns flt p False))"
proof (cases "filter_is_none flt")
  case True
  with assms show ?thesis by simp
next
  case False
  with assms have "predicate_returns flt p b" by (simp add: call_outcome_Inr)
  from predicate_returns_unique[OF this, of False] False show ?thesis by simp
qed

lemma matches_criteria_Inr:
  assumes "snd (matches_criteria h filepath patterns starts cont ends exts flt) = Inr b"
  shows "b = (include_strings_ok h filepath patterns starts cont ends exts \<and>
              (filter_is_none flt \<or> predicate_returns flt filepath True))"
proof (cases "include_pure filepath starts cont ends exts")
  case False
  with assms show ?thesis by (simp add: matches_criteria_normal include_strings_ok_alt)
next
  case True
  let ?A = "if patterns = [] then io_return True else any_re_match h patterns (base_name filepath)"
  let ?F = "if filter_is_none flt then io_return True
            else call_filter (IncludeCall filepath) flt filepath"
  from True assms have r: "snd (io_and ?A ?F) = Inr b" by (simp add: matches_criteria_normal)
  then obtain x where x: "snd ?A = Inr x" by (auto simp: snd_io_and split: sum.splits)
  have xg: "x = group_ok (pattern_matches h (base_name filepath)) patterns"
  proof (cases "patterns = []")
    case True
    with x show ?thesis by (simp add: group_ok_def)
  next
    case False
    with x have "snd (any_re_match h patterns (base_name filepath)) = Inr x" by simp
    from any_re_match_Inr[OF this] False show ?thesis by (simp add: group_ok_def)
  qed
  show ?thesis
  proof (cases x)
    case False
    with r x have "b = False" by (simp add: snd_io_and)
    with False xg show ?thesis by (simp add: include_strings_ok_alt)
  next
    case t: True
    with r x have "snd ?F = Inr b" by (simp add: snd_io_and)
    from include_tail_Inr[OF this] t xg True show ?thesis by (simp add: include_strings_ok_alt)
  qed
qed

lemma matches_exclusion_criteria_Inr:
  assumes "snd (matches_exclusion_criteria h filepath patterns starts cont ends exts flt) = Inr b"
  shows "b = (\<not> (\<not> exclude_strings_hit h filepath patterns starts cont ends exts \<and>
              (filter_is_none flt \<or> predicate_returns flt filepath False)))"
proof (cases "exclude_pure filepath starts cont ends exts")
  case True
  with assms show ?thesis by (simp add: matches_exclusion_criteria_normal exclude_strings_hit_alt)
next
  case False
  let ?A = "if patterns = [] then io_return False else any_re_match h patterns (base_name filepath)"
  let ?F = "if filter_is_none flt then io_return False
            else call_filter (ExcludeCall filepath) flt filepath"
  from False assms have r: "snd (io_or ?A ?F) = Inr b"
    by (simp add: matches_exclusion_criteria_normal)
  then obtain x where x: "snd ?A = Inr x" by (auto simp: snd_io_or split: sum.splits)
  have xg: "x = (\<exists>p\<in>set patterns. pattern_matches h (base_name filepath) p)"
  proof (cases "patterns = []")
    case True
    with x show ?thesis by simp
  next
    case False
    with x have "snd (any_re_match h patterns (base_name filepath)) = Inr x" by simp
    from any_re_match_Inr[OF this] show ?thesis .
  qed
  show ?thesis
  proof (cases x)
    case True
    with r x have "b = True" by (simp add: snd_io_or)
    with True xg show ?thesis by (simp add: exclude_strings_hit_alt)
  next
    case f: False
    with r x have "snd ?F = Inr b" by (simp add: snd_io_or)
    from exclude_tail_Inr[OF this] f xg False show ?thesis by (simp add: exclude_strings_hit_alt)
  qed
qed


section \<open>What the loops accumulate\<close>

lemma excluded_root_iff: "excluded_root l root = in_pruned l root"
  by (auto simp: excluded_root_def in_pruned_def list_ex_set)

lemma keep_file_Inr:
  assumes "snd (keep_file h l p) = Inr k"
  shows "k = selected h l p"
proof -
  let ?m = "matches_criteria h p (include_pattern_l l) (include_start_l l)
          (include_content_l l) (include_end_l l) (include_extension_l l) (include_filter_l l)"
  let ?x = "matches_exclusion_criteria h p (exclude_pattern_l l) (exclude_start_l l)
             (exclude_content_l l) (exclude_end_l l) (exclude_extension_l l) (exclude_filter_l l)"
  from assms obtain b where b: "snd ?m = Inr b"
    by (auto simp: keep_file_def snd_io_and split: sum.splits)
  from matches_criteria_Inr[OF b] have bi: "b = satisfies_inclusion h l p"
    by (simp add: satisfies_inclusion_def)
  show ?thesis
  proof (cases b)
    case False
    with assms b bi show ?thesis by (simp add: keep_file_def snd_io_and selected_def)
  next
    case True
    with assms b obtain x where x: "snd ?x = Inr x" and kx: "k = (\<not> x)"
      by (auto simp: keep_file_def snd_io_and snd_io_bind split: sum.splits)
    from matches_exclusion_criteria_Inr[OF x] have "x = (\<not> not_excluded h l p)"
      by (simp add: not_excluded_def)
    with True bi kx show ?thesis by (simp add: selected_def)
  qed
qed

lemma file_loop_Inr:
  "snd (file_loop h l root files acc) = Inr res \<Longrightarrow>
   res = acc @ filter (selected h l) (map (join root) files)"
proof (induction files arbitrary: acc)
  case Nil
  then show ?case by simp
next
  case (Cons f rest)
  from Cons.prems obtain k where k: "snd (keep_file h l (join root f)) = Inr k"
    and r: "snd (file_loop h l root rest (if k then acc @ [join root f] else acc)) = Inr res"
    by (auto simp: Let_def snd_io_bind split: sum.splits)
  from keep_file_Inr[OF k] Cons.IH[OF r] show ?case by simp
qed

lemma walk_loop_Inr:
  "snd (walk_loop h l ws acc) = Inr res \<Longrightarrow> res = acc @ concat (map (selected_in h l) ws)"
proof (induction ws arbitrary: acc)
  case Nil
  then show ?case by simp
next
  case (Cons w ws)
  obtain root dirs files where w: "w = (root, dirs, files)" by (cases w) auto
  show ?case
  proof (cases "excluded_root l root")
    case True
    with Cons.prems w have "snd (walk_loop h l ws acc) = Inr res" by simp
    from Cons.IH[OF this] True w show ?thesis by (simp add: selected_in_def excluded_root_iff)
  next
    case False
    with Cons.prems w obtain acc' where a: "snd (file_loop h l root files acc) = Inr acc'"
      and r: "snd (walk_loop h l ws acc') = Inr res"
      by (auto simp: snd_io_bind split: sum.splits)
    from file_loop_Inr[OF a] Cons.IH[OF r] False w show ?thesis
      by (simp add: selected_in_def excluded_root_iff)
  qed
qed

lemma directory_loop_Inr:
  "snd (directory_loop h l ds acc) = Inr res \<Longrightarrow>
   res = acc @ concat (map (\<lambda>d. concat (map (selected_in h l) (os_walk h d))) ds)"
proof (induction ds arbitrary: acc)
  case Nil
  then show ?case by simp
next
  case (Cons d ds)
  from Cons.prems obtain acc' where a: "snd (walk_loop h l (os_walk h d) acc) = Inr acc'"
    and r: "snd (directory_loop h l ds acc') = Inr res"
    by (auto simp: snd_io_bind split: sum.splits)
  from walk_loop_Inr[OF a] Cons.IH[OF r] show ?case by simp
qed

lemma strs_length: "list_all is_str xs \<Longrightarrow> length [s. PStr s \<leftarrow> xs] = length xs"
proof (induction xs)
  case Nil
  then show ?case by simp
next
  case (Cons x xs)
  then show ?case by (cases x) auto
qed

lemma strs_items_empty:
  assumes "check_type_union v"
  shows "(items (data_to_list v) = []) = (strs (data_to_list v) = [])"
proof -
  have a: "list_all is_str (items (data_to_list v))"
    using assms by (cases v) (simp_all add: check_type_union_def data_to_list_def)
  have "length (strs (data_to_list v)) = length (items (data_to_list v))"
    unfolding strs_def by (rule strs_length[OF a])
  then show ?thesis by (metis length_0_conv)
qed

lemma default_directory_Inr:
  assumes "check_type_union (include_directory c)"
    and "snd (default_directory h (data_to_list (include_directory c))) = Inr ds"
  shows "ds = root_directories h c"
proof (cases "items (data_to_list (include_directory c)) = []")
  case True
  with strs_items_empty[OF assms(1)] have e: "strs (data_to_list (include_directory c)) = []" by simp
  from True assms(2) have "ds = [getcwd h]"
    by (auto simp: default_directory_def split: pyobj.splits)
  with e show ?thesis by (simp add: root_directories_def)
next
  case False
  with strs_items_empty[OF assms(1)] have e: "strs (data_to_list (include_directory c)) \<noteq> []" by simp
  from False assms(2) have "ds = strs (data_to_list (include_directory c))"
    by (simp add: default_directory_def)
  with e show ?thesis by (simp add: root_directories_def)
qed

lemma search_files_Inr:
  assumes "snd (search_files h c) = Inr res"
  shows "res = concat (map (\<lambda>d. concat (map (selected_in h (convert c)) (os_walk h d)))
                 (root_directories h c))"
proof -
  from assms have ct: "check_type_union (include_directory c)"
    by (auto simp: search_files_def split: if_splits)
  from assms obtain ds where d: "snd (default_directory h (data_to_list (include_directory c))) = Inr ds"
    and r: "snd (directory_loop h (convert c) ds []) = Inr res"
    by (auto simp: search_files_def snd_io_bind split: if_splits sum.splits)
  from default_directory_Inr[OF ct d] directory_loop_Inr[OF r] show ?thesis by simp
qed

lemma selected_in_member:
  "(p \<in> set (selected_in h l (root, dirs, files))) =
   (\<not> in_pruned l root \<and> selected h l p \<and> (\<exists>f\<in>set files. p = join root f))"
  by (auto simp: selected_in_def)


lemma strs_data_to_list: "strs (data_to_list v) = declared v"
  by (cases v) (simp_all add: strs_def data_to_list_def)




lemma root_directories_declared: "root_directories h c = searched_roots h c"
  by (simp add: root_directories_def searched_roots_def strs_data_to_list)




section \<open>Excluded sub-directories\<close>

lemma join_prefix: "\<not> startswith b [sep] \<Longrightarrow> prefix a (join a b)"
  by (simp add: join_def)

lemma join_isabs: "isabs a \<Longrightarrow> isabs (join a b)"
  by (auto simp: join_def isabs_def startswith_def prefix_def)

lemma valid_name_no_sep_start: "sep \<notin> set name \<Longrightarrow> \<not> startswith name [sep]"
  by (auto simp: startswith_def prefix_def)

lemma walk_roots_prefix:
  "valid_node n \<Longrightarrow> v \<in> set (walk topdir n) \<Longrightarrow> prefix topdir (fst v)"
proof (induction topdir n arbitrary: v rule: walk.induct)
  case (1 topdir es)
  show ?case
  proof (cases "v = (topdir, map fst (filter (\<lambda>e. is_dir (snd e)) es), map fst (filter (\<lambda>e. \<not> is_dir (snd e)) es))")
    case True
    then show ?thesis by simp
  next
    case False
    with "1.prems"(2) obtain e sub where e: "e \<in> set es" and s: "snd e = Dir sub"
      and v: "v \<in> set (walk (join topdir (fst e)) (snd e))"
      by (auto split: node.splits)
    from "1.prems"(1) e have nm: "sep \<notin> set (fst e)" and vs: "valid_node (snd e)"
      by (auto simp: list_all_iff)
    from "1.IH"[OF e s vs v] have "prefix (join topdir (fst e)) (fst v)" .
    moreover have "prefix topdir (join topdir (fst e))"
      using nm by (simp add: join_prefix valid_name_no_sep_start)
    ultimately show ?thesis by (rule_tac prefix_order.trans)
  qed
qed simp_all

lemma walk_roots_isabs:
  "isabs topdir \<Longrightarrow> v \<in> set (walk topdir n) \<Longrightarrow> isabs (fst v)"
proof (induction topdir n arbitrary: v rule: walk.induct)
  case (1 topdir es)
  show ?case
  proof (cases "v = (topdir, map fst (filter (\<lambda>e. is_dir (snd e)) es), map fst (filter (\<lambda>e. \<not> is_dir (snd e)) es))")
    case True
    with "1.prems"(1) show ?thesis by simp
  next
    case False
    with "1.prems"(2) obtain e sub where e: "e \<in> set es" and s: "snd e = Dir sub"
      and v: "v \<in> set (walk (join topdir (fst e)) (snd e))"
      by (auto split: node.splits)
    from "1.prems"(1) have "isabs (join topdir (fst e))" by (rule join_isabs)
    from "1.IH"[OF e s this v] show ?thesis .
  qed
qed simp_all

lemma in_pruned_prefix: "in_pruned l r \<Longrightarrow> prefix r r' \<Longrightarrow> in_pruned l r'"
  unfolding in_pruned_def str_contains_def
  by (meson prefix_imp_sublist sublist_order.order_trans)

lemma walk_all_pruned:
  assumes "valid_node n" "in_pruned l r"
  shows "\<forall>v\<in>set (walk r n). in_pruned l (fst v)"
  using assms walk_roots_prefix in_pruned_prefix by blast

lemma walk_loop_all_pruned:
  "\<forall>v\<in>set ws. in_pruned l (fst v) \<Longrightarrow>
   walk_loop h l ws acc = io_log (map (Scandir \<circ> fst) ws) acc"
proof (induction ws)
  case Nil
  then show ?case by (simp add: io_log_def io_return_def)
next
  case (Cons w ws)
  obtain root dirs files where w: "w = (root, dirs, files)" by (cases w) auto
  with Cons show ?case by (simp add: io_log_def excluded_root_iff)
qed

lemma io_bind_assoc: "io_bind (io_bind m f) g = io_bind m (\<lambda>x. io_bind (f x) g)"
  by (cases m) (auto simp: io_bind_def split: sum.splits prod.splits)

lemma walk_loop_append:
  "walk_loop h l (xs @ ys) acc = io_bind (walk_loop h l xs acc) (walk_loop h l ys)"
proof (induction xs arbitrary: acc)
  case Nil
  then show ?case by simp
next
  case (Cons w ws)
  obtain root dirs files where w: "w = (root, dirs, files)" by (cases w) auto
  show ?case
  proof (cases "excluded_root l root")
    case True
    with w Cons show ?thesis
      by (simp add: io_bind_def split: prod.splits sum.splits)
  next
    case False
    with w Cons show ?thesis
      by (simp add: io_bind_assoc) (simp add: io_bind_def split: prod.splits sum.splits)
  qed
qed

lemma subtrees_walk:
  "(r, sub) \<in> set (subtrees topdir n) \<Longrightarrow> \<exists>before after. walk topdir n = before @ walk r sub @ after"
proof (induction topdir n rule: walk.induct)
  case (1 topdir es)
  show ?case
  proof (cases "(r, sub) = (topdir, Dir es)")
    case True
    then have "walk topdir (Dir es) = [] @ walk r sub @ []" by simp
    then show ?thesis by blast
  next
    case False
    with "1.prems" obtain e s where e: "e \<in> set es" and s: "snd e = Dir s"
      and m: "(r, sub) \<in> set (subtrees (join topdir (fst e)) (snd e))"
      by (auto split: node.splits)
    from "1.IH"[OF e s m] obtain b a where ba: "walk (join topdir (fst e)) (snd e) = b @ walk r sub @ a"
      by blast
    from e obtain es1 es2 where es: "es = es1 @ e # es2" by (meson split_list)
    let ?f = "\<lambda>e. case snd e of Dir sub \<Rightarrow> walk (join topdir (fst e)) (snd e) | _ \<Rightarrow> []"
    have "?f e = b @ walk r sub @ a" using ba s by simp
    then have "walk topdir (Dir es) =
        ((topdir, map fst (filter (\<lambda>e. is_dir (snd e)) es), map fst (filter (\<lambda>e. \<not> is_dir (snd e)) es))
          # concat (map ?f es1) @ b) @ walk r sub @ (a @ concat (map ?f es2))"
      by (simp add: es)
    then show ?thesis by blast
  qed
qed simp_all

lemma subtrees_valid:
  "valid_node n \<Longrightarrow> (r, sub) \<in> set (subtrees topdir n) \<Longrightarrow> valid_node sub"
proof (induction topdir n rule: subtrees.induct)
  case (1 topdir es)
  show ?case
  proof (cases "(r, sub) = (topdir, Dir es)")
    case True
    with "1.prems"(1) show ?thesis by simp
  next
    case False
    with "1.prems"(2) obtain e s where e: "e \<in> set es" and s: "snd e = Dir s"
      and m: "(r, sub) \<in> set (subtrees (join topdir (fst e)) (snd e))"
      by (auto split: node.splits)
    from "1.prems"(1) e have "valid_node (snd e)" by (auto simp: list_all_iff)
    from "1.IH"[OF e s this m] show ?thesis .
  qed
qed simp_all

text \<open>
  C2, as amended. Let the walk from \<open>topdir\<close> reach a directory whose path \<open>r\<close>
  contains an \<^verbatim>\<open>exclude_subdirectory\<close> fragment as a substring. Then the path of
  every directory the walk visits at or below it contains the fragment too,
  and the part of the loop that runs over them only opens the directories: it
  leaves the accumulated list as it is and calls no custom predicate. The walk
  itself still descends: the directories below \<open>r\<close> are opened and skipped one
  by one.
\<close>

theorem pruned_directory:
  assumes "valid_node n" and "(r, sub) \<in> set (subtrees topdir n)" and "in_pruned l r"
  shows "(\<forall>v\<in>set (walk r sub). in_pruned l (fst v)) \<and>
         (\<exists>before after. walk topdir n = before @ walk r sub @ after \<and>
            walk_loop h l (walk topdir n) acc =
              io_bind (walk_loop h l before acc) (\<lambda>a.
              io_bind (io_log (map (Scandir \<circ> fst) (walk r sub)) a) (walk_loop h l after)))"
proof -
  from subtrees_valid[OF assms(1,2)] have vs: "valid_node sub" .
  from walk_all_pruned[OF vs assms(3)] have ap: "\<forall>v\<in>set (walk r sub). in_pruned l (fst v)" .
  from subtrees_walk[OF assms(2)] obtain before after where
    w: "walk topdir n = before @ walk r sub @ after" by blast
  have "walk_loop h l (walk topdir n) acc =
              io_bind (walk_loop h l before acc) (\<lambda>a.
              io_bind (io_log (map (Scandir \<circ> fst) (walk r sub)) a) (walk_loop h l after))"
  proof -
    have "walk_loop h l (walk r sub @ after) =
          (\<lambda>a. io_bind (io_log (map (Scandir \<circ> fst) (walk r sub)) a) (walk_loop h l after))"
      by (rule ext) (simp add: walk_loop_append walk_loop_all_pruned[OF ap])
    then show ?thesis unfolding w by (simp add: walk_loop_append)
  qed
  with ap w show ?thesis by blast
qed


text \<open>
  The walk is not cut short: with the fragment \<^verbatim>\<open>sub\<close>, the directory
  \<^verbatim>\<open>/r/sub/deep\<close> below the excluded \<^verbatim>\<open>/r/sub\<close> is still opened.
\<close>

theorem pruned_directory_counterexample:
  "in_pruned (convert sub_config) ''/r/sub''
   \<and> Scandir ''/r/sub/deep'' \<in> set (fst (search_files example_host sub_config))
   \<and> snd (search_files example_host sub_config) = Inr [''/r/a.py'', ''/r/b.txt'']"
  by code_simp

theorem pruned_directory_witness:
  "valid_node example_tree
   \<and> (''/r/subdirectory'', Dir [(''d.py'', File)]) \<in> set (subtrees ''/r'' example_tree)
   \<and> in_pruned (convert sub_config) ''/r/subdirectory''
   \<and> (\<exists>before after.
         walk ''/r'' example_tree = before @ walk ''/r/subdirectory'' (Dir [(''d.py'', File)]) @ after \<and>
         walk_loop example_host (convert sub_config) (walk ''/r'' example_tree) [] =
           io_bind (walk_loop example_host (convert sub_config) before []) (\<lambda>a.
           io_bind (io_log (map (Scandir \<circ> fst) (walk ''/r/subdirectory'' (Dir [(''d.py'', File)]))) a)
             (walk_loop example_host (convert sub_config) after)))"
proof -
  have v: "valid_node example_tree" by code_simp
  have s: "(''/r/subdirectory'', Dir [(''d.py'', File)]) \<in> set (subtrees ''/r'' example_tree)"
    by code_simp
  have p: "in_pruned (convert sub_config) ''/r/subdirectory''" by code_simp
  from pruned_directory[OF v s p, of example_host "[]"] v s p show ?thesis by blast
qed

lemma os_walk_all_pruned:
  assumes "valid_at h d" and "in_pruned l d"
  shows "\<forall>v\<in>set (os_walk h d). in_pruned l (fst v)"
proof (cases "lookup h d")
  case None
  then show ?thesis by (simp add: os_walk_def)
next
  case (Some n)
  with assms(1) have "valid_node n" by (simp add: valid_at_def)
  from walk_all_pruned[OF this assms(2)] Some show ?thesis by (simp add: os_walk_def)
qed

lemma empty_fragment_prunes: "[] \<in> set (exclude_subdirectory_l l) \<Longrightarrow> in_pruned l r"
  by (auto simp: in_pruned_def str_contains_def)

text \<open>
  C10. When an \<^verbatim>\<open>exclude_subdirectory\<close> fragment is the empty string, or is a
  substring of the path of a root directory (whose tree has well-formed entry
  names), every directory the walk of that root visits, the root included, is
  skipped: the loop over the root only opens directories and returns the
  accumulated list unchanged.
\<close>

theorem excluded_root_contributes_nothing:
  assumes "x \<in> set (exclude_subdirectory_l (convert c))"
    and "x = [] \<or> (str_contains d x \<and> valid_at h d)"
  shows "list_all (\<lambda>v. excluded_root (convert c) (fst v)) (os_walk h d) \<and>
         walk_loop h (convert c) (os_walk h d) acc = io_log (map (Scandir \<circ> fst) (os_walk h d)) acc"
proof -
  have ap: "\<forall>v\<in>set (os_walk h d). in_pruned (convert c) (fst v)"
  proof (cases "x = []")
    case True
    with assms(1) show ?thesis by (simp add: empty_fragment_prunes)
  next
    case False
    with assms(2) have s: "str_contains d x" and v: "valid_at h d" by simp_all
    from assms(1) s have "in_pruned (convert c) d" by (auto simp: in_pruned_def)
    from os_walk_all_pruned[OF v this] show ?thesis .
  qed
  from walk_loop_all_pruned[OF ap] ap show ?thesis
    by (simp add: list_all_iff excluded_root_iff)
qed

theorem excluded_root_contributes_nothing_witness:
  "''r'' \<in> set (exclude_subdirectory_l (convert (sub_config\<lparr>exclude_subdirectory := PStr ''r''\<rparr>)))
   \<and> str_contains ''/r'' ''r'' \<and> valid_at example_host ''/r''
   \<and> walk_loop example_host (convert (sub_config\<lparr>exclude_subdirectory := PStr ''r''\<rparr>))
         (os_walk example_host ''/r'') [] =
       io_log [Scandir ''/r'', Scandir ''/r/sub'', Scandir ''/r/sub/deep'', Scandir ''/r/subdirectory''] []
   \<and> [] \<in> set (exclude_subdirectory_l (convert empty_fragment_config))
   \<and> snd (walk_loop example_host (convert empty_fragment_config) (os_walk example_host ''/r'') []) = Inr []"
proof -
  let ?c = "sub_config\<lparr>exclude_subdirectory := PStr ''r''\<rparr>"
  have a: "''r'' \<in> set (exclude_subdirectory_l (convert ?c))" by code_simp
  have b: "str_contains ''/r'' ''r''" by code_simp
  have v: "valid_at example_host ''/r''" by code_simp
  have w: "map (Scandir \<circ> fst) (os_walk example_host ''/r'') =
     [Scandir ''/r'', Scandir ''/r/sub'', Scandir ''/r/sub/deep'', Scandir ''/r/subdirectory'']"
    by code_simp
  have e: "[] \<in> set (exclude_subdirectory_l (convert empty_fragment_config))" by code_simp
  from b v have h1: "''r'' = [] \<or> (str_contains ''/r'' ''r'' \<and> valid_at example_host ''/r'')" by simp
  have h2: "[] = [] \<or> (str_contains ''/r'' [] \<and> valid_at example_host ''/r'')" by simp
  note t1 = excluded_root_contributes_nothing[OF a h1, of "[]"]
  note t2 = excluded_root_contributes_nothing[OF e h2, of "[]"]
  from t2 have "snd (walk_loop example_host (convert empty_fragment_config) (os_walk example_host ''/r'') []) = Inr []"
    by (simp add: io_log_def)
  with t1 w a b v e show ?thesis by simp
qed

section \<open>Absolute paths\<close>

lemma selected_in_isabs:
  "isabs (fst v) \<Longrightarrow> p \<in> set (selected_in h l v) \<Longrightarrow> isabs p"
  by (cases v) (auto simp: selected_in_def join_isabs split: if_splits)

lemma os_walk_isabs: "isabs d \<Longrightarrow> v \<in> set (os_walk h d) \<Longrightarrow> isabs (fst v)"
  by (auto simp: os_walk_def walk_roots_isabs split: option.splits)

lemma join_same_isabs:
  assumes "b \<noteq> []" and "sep \<notin> set b"
  shows "isabs (join a b) = isabs a"
proof (cases "isabs a")
  case True
  then show ?thesis by (simp add: join_isabs)
next
  case False
  from assms have nb: "\<not> startswith b [sep]" by (simp add: valid_name_no_sep_start)
  from assms have hb: "hd b \<noteq> sep" by (cases b) auto
  show ?thesis
  proof (cases "a = []")
    case True
    with nb assms hb False show ?thesis
      by (cases b) (auto simp: join_def isabs_def startswith_def)
  next
    case ne: False
    with False have "hd a \<noteq> sep" by (cases a) (auto simp: isabs_def startswith_def)
    with ne nb False show ?thesis
      by (cases a) (auto simp: join_def isabs_def startswith_def)
  qed
qed

lemma walk_roots_same_isabs:
  "valid_node n \<Longrightarrow> v \<in> set (walk topdir n) \<Longrightarrow> isabs (fst v) = isabs topdir"
proof (induction topdir n arbitrary: v rule: walk.induct)
  case (1 topdir es)
  show ?case
  proof (cases "v = (topdir, map fst (filter (\<lambda>e. is_dir (snd e)) es), map fst (filter (\<lambda>e. \<not> is_dir (snd e)) es))")
    case True
    then show ?thesis by simp
  next
    case False
    with "1.prems"(2) obtain e sub where e: "e \<in> set es" and s: "snd e = Dir sub"
      and v: "v \<in> set (walk (join topdir (fst e)) (snd e))"
      by (auto split: node.splits)
    from "1.prems"(1) e have nm: "fst e \<noteq> []" "sep \<notin> set (fst e)" and vs: "valid_node (snd e)"
      by (auto simp: list_all_iff)
    from "1.IH"[OF e s vs v] have "isabs (fst v) = isabs (join topdir (fst e))" .
    with join_same_isabs[OF nm] show ?thesis by simp
  qed
qed simp_all

lemma walk_files_valid:
  "valid_node n \<Longrightarrow> v \<in> set (walk topdir n) \<Longrightarrow> f \<in> set (snd (snd v)) \<Longrightarrow>
   f \<noteq> [] \<and> sep \<notin> set f"
proof (induction topdir n arbitrary: v rule: walk.induct)
  case (1 topdir es)
  show ?case
  proof (cases "v = (topdir, map fst (filter (\<lambda>e. is_dir (snd e)) es), map fst (filter (\<lambda>e. \<not> is_dir (snd e)) es))")
    case True
    with "1.prems"(3) obtain e where "e \<in> set es" "f = fst e" by auto
    with "1.prems"(1) show ?thesis by (auto simp: list_all_iff)
  next
    case False
    with "1.prems"(2) obtain e sub where e: "e \<in> set es" and s: "snd e = Dir sub"
      and v: "v \<in> set (walk (join topdir (fst e)) (snd e))"
      by (auto split: node.splits)
    from "1.prems"(1) e have vs: "valid_node (snd e)" by (auto simp: list_all_iff)
    from "1.IH"[OF e s vs v "1.prems"(3)] show ?thesis .
  qed
qed simp_all

lemma selected_in_built_from_root:
  assumes "valid_at h d" and "v \<in> set (os_walk h d)" and "p \<in> set (selected_in h l v)"
  shows "prefix d p \<and> isabs p = isabs d"
proof -
  obtain root dirs files where vv: "v = (root, dirs, files)" by (cases v) auto
  from assms(2) obtain n where n: "lookup h d = Some n" and w: "v \<in> set (walk d n)"
    by (cases "lookup h d") (simp_all add: os_walk_def)
  from assms(1) n have vn: "valid_node n" by (simp add: valid_at_def)
  from assms(3) vv obtain f where f: "f \<in> set files" and p: "p = join root f"
    by (auto simp: selected_in_member)
  from walk_files_valid[OF vn w, of f] f vv have fv: "f \<noteq> []" "sep \<notin> set f" by simp_all
  from walk_roots_prefix[OF vn w] vv have pr: "prefix d root" by simp
  from walk_roots_same_isabs[OF vn w] vv have ar: "isabs root = isabs d" by simp
  from fv(2) have "prefix root (join root f)" by (simp add: join_prefix valid_name_no_sep_start)
  with pr have "prefix d p" unfolding p by (rule prefix_order.trans)
  moreover from join_same_isabs[OF fv] ar have "isabs p = isabs d" unfolding p by simp
  ultimately show ?thesis by simp
qed

text \<open>
  C4, as amended. Let \<^verbatim>\<open>search_files\<close> return. If every root directory it
  searches (the declared ones, or the working directory when none is declared)
  is an absolute path, every path in the result is absolute. In a file system
  with well-formed entry names every path in the result begins with one of the
  searched roots, as that root was given, and is absolute exactly when that
  root is: a relative root gives relative paths.
\<close>

theorem roots_decide_absolute_paths:
  assumes "snd (search_files h c) = Inr res"
  shows "((\<forall>d\<in>set (searched_roots h c). isabs d) \<longrightarrow> (\<forall>p\<in>set res. isabs p)) \<and>
         ((\<forall>d\<in>set (searched_roots h c). valid_at h d) \<longrightarrow>
            (\<forall>p\<in>set res. \<exists>d\<in>set (searched_roots h c). prefix d p \<and> isabs p = isabs d))"
proof (intro conjI impI ballI)
  fix p assume a: "\<forall>d\<in>set (searched_roots h c). isabs d" and "p \<in> set res"
  then obtain d v where d: "d \<in> set (searched_roots h c)" and v: "v \<in> set (os_walk h d)"
    and p: "p \<in> set (selected_in h (convert c) v)"
    unfolding search_files_Inr[OF assms] root_directories_declared by auto
  from a d have "isabs d" by blast
  from os_walk_isabs[OF this v] have "isabs (fst v)" .
  from selected_in_isabs[OF this p] show "isabs p" .
next
  fix p assume a: "\<forall>d\<in>set (searched_roots h c). valid_at h d" and "p \<in> set res"
  then obtain d v where d: "d \<in> set (searched_roots h c)" and v: "v \<in> set (os_walk h d)"
    and p: "p \<in> set (selected_in h (convert c) v)"
    unfolding search_files_Inr[OF assms] root_directories_declared by auto
  from a d have "valid_at h d" by blast
  from selected_in_built_from_root[OF this v p] d
  show "\<exists>d\<in>set (searched_roots h c). prefix d p \<and> isabs p = isabs d" by blast
qed

theorem roots_decide_absolute_paths_witness:
  "snd (search_files example_host absolute_roots_config) =
     Inr [''/reports/report_final.txt'', ''/reports/report_draft.txt'', ''/reports/notes.txt'',
          ''/home/u/a.py'']
   \<and> searched_roots example_host absolute_roots_config = [''/reports'', ''/home/u'']
   \<and> isabs ''/reports'' \<and> isabs ''/home/u'' \<and> isabs ''/reports/notes.txt''
   \<and> snd (search_files example_host mixed_roots_config) = Inr [''./a.py'', ''/home/u/a.py'']
   \<and> searched_roots example_host mixed_roots_config = [''.'', ''/home/u'']
   \<and> valid_at example_host ''.'' \<and> valid_at example_host ''/home/u''
   \<and> (\<exists>d\<in>set [''.'', ''/home/u'']. prefix d ''./a.py'' \<and> isabs ''./a.py'' = isabs d)
   \<and> \<not> isabs ''./a.py''"
proof -
  have e: "snd (search_files example_host absolute_roots_config) =
     Inr [''/reports/report_final.txt'', ''/reports/report_draft.txt'', ''/reports/notes.txt'',
          ''/home/u/a.py'']" by code_simp
  have r: "searched_roots example_host absolute_roots_config = [''/reports'', ''/home/u'']"
    by code_simp
  have a: "isabs ''/reports''" "isabs ''/home/u''" by code_simp+
  from r a have h1: "\<forall>d\<in>set (searched_roots example_host absolute_roots_config). isabs d" by simp
  from roots_decide_absolute_paths[OF e, THEN conjunct1, THEN mp, OF h1]
  have p1: "isabs ''/reports/notes.txt''" by simp
  have e2: "snd (search_files example_host mixed_roots_config) = Inr [''./a.py'', ''/home/u/a.py'']"
    by code_simp
  have r2: "searched_roots example_host mixed_roots_config = [''.'', ''/home/u'']" by code_simp
  have v: "valid_at example_host ''.''" "valid_at example_host ''/home/u''" by code_simp+
  from r2 v have h2: "\<forall>d\<in>set (searched_roots example_host mixed_roots_config). valid_at example_host d"
    by simp
  from roots_decide_absolute_paths[OF e2, THEN conjunct2, THEN mp, OF h2]
  have p2: "\<exists>d\<in>set [''.'', ''/home/u'']. prefix d ''./a.py'' \<and> isabs ''./a.py'' = isabs d"
    unfolding r2 by simp
  have n: "\<not> isabs ''./a.py''" by code_simp
  show ?thesis using e r a p1 e2 r2 v p2 n by (intro conjI) assumption+
qed

text \<open>A relative root gives relative paths: the root is joined as it was given.\<close>

theorem absolute_paths_counterexample:
  "snd (search_files example_host rel_config) = Inr [''./a.py''] \<and> \<not> isabs ''./a.py''"
  by code_simp

section \<open>The default root directory\<close>

text \<open>
  C3. With \<^verbatim>\<open>include_directory=()\<close> the call does not fall back to the working
  directory: \<^verbatim>\<open>data_to_list\<close> hands the tuple on as it is, and \<^verbatim>\<open>append\<close> on it
  raises \<open>AttributeError\<close> before anything is read.
\<close>

theorem empty_tuple_raises:
  "search_files h (no_filters\<lparr> include_directory := PTuple [] \<rparr>) = ([], Inl AttributeError)"
  by (simp add: search_files_def no_filters_def check_type_union_def data_to_list_def
      default_directory_def) (simp add: io_raise_def)

lemma convert_include_directory [simp]: "convert (c\<lparr>include_directory := v\<rparr>) = convert c"
  by (simp add: convert_def)

text \<open>
  With \<^verbatim>\<open>None\<close> or the empty list the working directory is the one root.
\<close>

lemma absent_or_empty_list_defaults:
  assumes "v = PNone \<or> v = PList []"
    and "list_all check_type_union
            [include_pattern c, include_start c, include_content c,
             include_end c, include_extension c, exclude_subdirectory c, exclude_pattern c,
             exclude_start c, exclude_content c, exclude_end c, exclude_extension c]"
  shows "search_files h (c\<lparr>include_directory := v\<rparr>) =
         io_bind (io_emit Getcwd) (\<lambda>u.
         io_bind (check_directories h [getcwd h]) (\<lambda>u.
         directory_loop h (convert c) [getcwd h] []))"
proof -
  from assms(1) have d: "default_directory h (data_to_list v) =
      io_bind (io_emit Getcwd) (\<lambda>u. io_return [getcwd h])"
    by (auto simp: data_to_list_def default_directory_def)
  from assms(1) have "check_type_union v" by (auto simp: check_type_union_def)
  with assms(2) have "search_files h (c\<lparr>include_directory := v\<rparr>) =
      io_bind (default_directory h (data_to_list v)) (\<lambda>directories.
        io_bind (check_directories h directories) (\<lambda>u.
        directory_loop h (convert c) directories []))"
    by (simp add: search_files_def)
  also have "\<dots> = io_bind (io_emit Getcwd) (\<lambda>u.
         io_bind (check_directories h [getcwd h]) (\<lambda>u.
         directory_loop h (convert c) [getcwd h] []))"
    unfolding d io_bind_assoc by (simp only: io_bind_return)
  finally show ?thesis .
qed

section \<open>Errors\<close>

lemma check_type_union_conforms: "check_type_union v = conforms v"
  by (cases v) (simp_all add: check_type_union_def conforms_def is_sequence_def list_all_iff)

lemma checks_well_typed:
  "list_all check_type_union
     [include_directory c, include_pattern c, include_start c, include_content c,
      include_end c, include_extension c, exclude_subdirectory c, exclude_pattern c,
      exclude_start c, exclude_content c, exclude_end c, exclude_extension c] = well_typed c"
  by (simp add: check_type_union_conforms well_typed_def)

lemma search_files_well_typed:
  "search_files h c =
     (if \<not> well_typed c then io_raise TypeError
      else
        io_bind (default_directory h (data_to_list (include_directory c))) (\<lambda>directories.
        io_bind (check_directories h directories) (\<lambda>u.
        directory_loop h (convert c) directories [])))"
  by (simp only: search_files_def checks_well_typed)




lemma late_raise: "e \<noteq> TypeError \<Longrightarrow> late fi fe (io_raise e)"
  by (simp add: late_def)

















lemma convert_filters [simp]:
  "include_filter_l (convert c) = include_filter c" "exclude_filter_l (convert c) = exclude_filter c"
  by (simp_all add: convert_def)






lemma check_directories_ok:
  "list_all (isdir h) ds \<Longrightarrow> check_directories h ds = (map Isdir ds, Inr ())"
  by (induction ds) (simp_all add: io_return_def)

lemma check_directories_fails:
  "\<not> list_all (isdir h) ds \<Longrightarrow>
   \<exists>ok d rest. ds = ok @ d # rest \<and> list_all (isdir h) ok \<and> \<not> isdir h d \<and>
     check_directories h ds = (map Isdir (ok @ [d]), Inl (FileNotFoundError d))"
proof (induction ds)
  case Nil
  then show ?case by simp
next
  case (Cons a ds)
  show ?case
  proof (cases "isdir h a")
    case False
    then have "a # ds = [] @ a # ds \<and> list_all (isdir h) [] \<and> \<not> isdir h a \<and>
      check_directories h (a # ds) = (map Isdir ([] @ [a]), Inl (FileNotFoundError a))"
      by (simp add: io_raise_def)
    then show ?thesis by blast
  next
    case True
    with Cons.prems have "\<not> list_all (isdir h) ds" by simp
    from Cons.IH[OF this] obtain ok d rest where r: "ds = ok @ d # rest" "list_all (isdir h) ok"
      "\<not> isdir h d" "check_directories h ds = (map Isdir (ok @ [d]), Inl (FileNotFoundError d))"
      by blast
    with True have "a # ds = (a # ok) @ d # rest \<and> list_all (isdir h) (a # ok) \<and> \<not> isdir h d \<and>
      check_directories h (a # ds) = (map Isdir ((a # ok) @ [d]), Inl (FileNotFoundError d))"
      by simp
    then show ?thesis by blast
  qed
qed

text \<open>
  C6. With well-typed arguments, if a declared root directory does not exist or
  is not a directory, the call raises \<open>FileNotFoundError\<close> for the first such
  directory. The log holds the \<^verbatim>\<open>isdir\<close> tests up to that directory and nothing
  else: no directory was opened, no predicate called, and there is no result.
\<close>

theorem missing_root_raises:
  assumes "well_typed c" and "\<not> list_all (isdir h) (declared_roots c)"
  shows "\<exists>ok d rest. declared_roots c = ok @ d # rest \<and> list_all (isdir h) ok \<and> \<not> isdir h d \<and>
           search_files h c = (map Isdir (ok @ [d]), Inl (FileNotFoundError d))"
proof -
  let ?ds = "declared_roots c"
  from assms(2) have ne: "?ds \<noteq> []" by auto
  then have "items (data_to_list (include_directory c)) \<noteq> []"
    by (auto simp: declared_roots_def strs_def)
  then have d: "default_directory h (data_to_list (include_directory c)) = io_return ?ds"
    by (simp add: default_directory_def declared_roots_def)
  from check_directories_fails[OF assms(2)] obtain ok d rest where r: "?ds = ok @ d # rest"
    "list_all (isdir h) ok" "\<not> isdir h d"
    "check_directories h ?ds = (map Isdir (ok @ [d]), Inl (FileNotFoundError d))"
    by blast
  from assms(1) have "search_files h c =
      io_bind (check_directories h ?ds) (\<lambda>u. directory_loop h (convert c) ?ds [])"
    by (simp add: search_files_well_typed d)
  also have "\<dots> = (map Isdir (ok @ [d]), Inl (FileNotFoundError d))"
    unfolding r(4) by (simp add: io_bind_def)
  finally show ?thesis using r(1,2,3) by blast
qed


theorem missing_root_raises_witness:
  "well_typed missing_root_config
   \<and> \<not> list_all (isdir example_host) (declared_roots missing_root_config)
   \<and> (\<exists>ok d rest. declared_roots missing_root_config = ok @ d # rest \<and>
         list_all (isdir example_host) ok \<and> \<not> isdir example_host d \<and>
         search_files example_host missing_root_config =
           (map Isdir (ok @ [d]), Inl (FileNotFoundError d)))
   \<and> search_files example_host missing_root_config =
       ([Isdir ''/r'', Isdir ''/r/a.py''], Inl (FileNotFoundError ''/r/a.py''))"
proof -
  have a: "well_typed missing_root_config" by code_simp
  have b: "\<not> list_all (isdir example_host) (declared_roots missing_root_config)" by code_simp
  have c: "search_files example_host missing_root_config =
       ([Isdir ''/r'', Isdir ''/r/a.py''], Inl (FileNotFoundError ''/r/a.py''))" by code_simp
  from missing_root_raises[OF a b] a b c show ?thesis by blast
qed

section \<open>The custom predicates come last\<close>

lemma any_re_match_total:
  "\<forall>p\<in>set ps. re_compile h p \<noteq> None \<Longrightarrow>
   any_re_match h ps s = io_return (\<exists>p\<in>set ps. pattern_matches h s p)"
  by (induction ps) (auto simp: pattern_matches_def re_match_def split: sum.splits bool.splits)

lemma any_re_match_Inl:
  "snd (any_re_match h ps s) = Inl e \<Longrightarrow> \<exists>x\<in>set ps. re_compile h x = None \<and> e = ReError x"
  by (induction ps) (auto simp: re_match_def split: sum.splits bool.splits option.splits)

lemma include_call_only_if:
  assumes "IncludeCall q \<in> set (fst (matches_criteria h p ps sts cts ens exs flt))"
  shows "q = p \<and> \<not> filter_is_none flt \<and> include_strings_ok h p ps sts cts ens exs"
proof -
  let ?A = "if ps = [] then io_return True else any_re_match h ps (base_name p)"
  from assms have pure: "include_pure p sts cts ens exs"
    by (auto simp: matches_criteria_normal split: if_splits)
  with assms have a: "snd ?A = Inr True" and f: "\<not> filter_is_none flt" and q: "q = p"
    by (auto simp: matches_criteria_normal fst_io_and split: if_splits sum.splits)
  have "group_ok (pattern_matches h (base_name p)) ps"
  proof (cases "ps = []")
    case True
    then show ?thesis by (simp add: group_ok_def)
  next
    case False
    with a have "snd (any_re_match h ps (base_name p)) = Inr True" by simp
    from any_re_match_Inr[OF this] show ?thesis by (simp add: group_ok_def)
  qed
  with pure f q show ?thesis by (simp add: include_strings_ok_alt)
qed

lemma exclude_call_only_if:
  assumes "ExcludeCall q \<in> set (fst (matches_exclusion_criteria h p ps sts cts ens exs flt))"
  shows "q = p \<and> \<not> filter_is_none flt \<and> \<not> exclude_strings_hit h p ps sts cts ens exs"
proof -
  let ?A = "if ps = [] then io_return False else any_re_match h ps (base_name p)"
  from assms have pure: "\<not> exclude_pure p sts cts ens exs"
    by (auto simp: matches_exclusion_criteria_normal split: if_splits)
  with assms have a: "snd ?A = Inr False" and f: "\<not> filter_is_none flt" and q: "q = p"
    by (auto simp: matches_exclusion_criteria_normal fst_io_or split: if_splits sum.splits)
  have "\<not> (\<exists>x\<in>set ps. pattern_matches h (base_name p) x)"
  proof (cases "ps = []")
    case True
    then show ?thesis by simp
  next
    case False
    with a have "snd (any_re_match h ps (base_name p)) = Inr False" by simp
    from any_re_match_Inr[OF this] show ?thesis by simp
  qed
  with pure f q show ?thesis by (simp add: exclude_strings_hit_alt)
qed

lemma include_error_cases:
  assumes "snd (matches_criteria h p ps sts cts ens exs flt) = Inl e"
  shows "(fst (matches_criteria h p ps sts cts ens exs flt) = [] \<and>
          (\<exists>x\<in>set ps. re_compile h x = None \<and> e = ReError x)) \<or>
         (fst (matches_criteria h p ps sts cts ens exs flt) = [IncludeCall p] \<and>
          \<not> filter_is_none flt \<and> include_strings_ok h p ps sts cts ens exs \<and>
          call_outcome flt p = Inl e)"
proof -
  let ?A = "if ps = [] then io_return True else any_re_match h ps (base_name p)"
  let ?m = "matches_criteria h p ps sts cts ens exs flt"
  from assms have pure: "include_pure p sts cts ens exs"
    by (auto simp: matches_criteria_normal split: if_splits)
  have fa: "fst ?A = []" by simp
  show ?thesis
  proof (cases "snd ?A")
    case (Inl e')
    with pure assms have "e' = e" by (simp add: matches_criteria_normal snd_io_and)
    with Inl have "\<exists>x\<in>set ps. re_compile h x = None \<and> e = ReError x"
      using any_re_match_Inl[of h ps "base_name p" e] by (auto split: if_splits)
    moreover from pure Inl have "fst ?m = []" by (simp add: matches_criteria_normal fst_io_and)
    ultimately show ?thesis by blast
  next
    case (Inr x)
    with pure assms have x: "x" and f: "\<not> filter_is_none flt" and c: "call_outcome flt p = Inl e"
      by (auto simp: matches_criteria_normal snd_io_and split: if_splits)
    from pure Inr x f have l: "fst ?m = [IncludeCall p]"
      by (simp add: matches_criteria_normal fst_io_and)
    then have "IncludeCall p \<in> set (fst ?m)" by simp
    from include_call_only_if[OF this] l f c show ?thesis by blast
  qed
qed

lemma exclude_error_cases:
  assumes "snd (matches_exclusion_criteria h p ps sts cts ens exs flt) = Inl e"
  shows "(fst (matches_exclusion_criteria h p ps sts cts ens exs flt) = [] \<and>
          (\<exists>x\<in>set ps. re_compile h x = None \<and> e = ReError x)) \<or>
         (fst (matches_exclusion_criteria h p ps sts cts ens exs flt) = [ExcludeCall p] \<and>
          \<not> filter_is_none flt \<and> \<not> exclude_strings_hit h p ps sts cts ens exs \<and>
          call_outcome flt p = Inl e)"
proof -
  let ?A = "if ps = [] then io_return False else any_re_match h ps (base_name p)"
  let ?m = "matches_exclusion_criteria h p ps sts cts ens exs flt"
  from assms have pure: "\<not> exclude_pure p sts cts ens exs"
    by (auto simp: matches_exclusion_criteria_normal split: if_splits)
  show ?thesis
  proof (cases "snd ?A")
    case (Inl e')
    with pure assms have "e' = e" by (simp add: matches_exclusion_criteria_normal snd_io_or)
    with Inl have "\<exists>x\<in>set ps. re_compile h x = None \<and> e = ReError x"
      using any_re_match_Inl[of h ps "base_name p" e] by (auto split: if_splits)
    moreover from pure Inl have "fst ?m = []"
      by (simp add: matches_exclusion_criteria_normal fst_io_or)
    ultimately show ?thesis by blast
  next
    case (Inr x)
    with pure assms have x: "\<not> x" and f: "\<not> filter_is_none flt" and c: "call_outcome flt p = Inl e"
      by (auto simp: matches_exclusion_criteria_normal snd_io_or split: if_splits)
    from pure Inr x f have l: "fst ?m = [ExcludeCall p]"
      by (simp add: matches_exclusion_criteria_normal fst_io_or)
    then have "ExcludeCall p \<in> set (fst ?m)" by simp
    from exclude_call_only_if[OF this] l f c show ?thesis by blast
  qed
qed

lemma include_call_if:
  assumes "include_strings_ok h p ps sts cts ens exs" and "\<forall>x\<in>set ps. re_compile h x \<noteq> None"
    and "\<not> filter_is_none flt"
  shows "matches_criteria h p ps sts cts ens exs flt = call_filter (IncludeCall p) flt p"
  using assms
  by (auto simp: matches_criteria_normal include_strings_ok_alt any_re_match_total group_ok_def)

lemma exclude_call_if:
  assumes "\<not> exclude_strings_hit h p ps sts cts ens exs" and "\<forall>x\<in>set ps. re_compile h x \<noteq> None"
    and "\<not> filter_is_none flt"
  shows "matches_exclusion_criteria h p ps sts cts ens exs flt = call_filter (ExcludeCall p) flt p"
  using assms
  by (auto simp: matches_exclusion_criteria_normal exclude_strings_hit_alt any_re_match_total)

text \<open>
  C9. \<^verbatim>\<open>include_filter\<close> is called on a path only if the string groups of the
  inclusion set hold for it; \<^verbatim>\<open>exclude_filter\<close> is called only if no string
  group of the exclusion set has a matching element. An exception that comes
  out of \<^verbatim>\<open>matches_criteria\<close> or \<^verbatim>\<open>matches_exclusion_criteria\<close> is either
  \<^verbatim>\<open>re.error\<close> for a pattern that does not compile, with no predicate called, or
  the outcome of the one call of the custom predicate, and then the string
  groups had left the outcome open. When they do (and every pattern compiles),
  the predicate is the one thing called and decides.
\<close>

theorem custom_predicates_last:
  "(IncludeCall q \<in> set (fst (matches_criteria h p ps sts cts ens exs flt)) \<longrightarrow>
      q = p \<and> \<not> filter_is_none flt \<and> include_strings_ok h p ps sts cts ens exs) \<and>
   (snd (matches_criteria h p ps sts cts ens exs flt) = Inl e \<longrightarrow>
      (fst (matches_criteria h p ps sts cts ens exs flt) = [] \<and>
       (\<exists>x\<in>set ps. re_compile h x = None \<and> e = ReError x)) \<or>
      (fst (matches_criteria h p ps sts cts ens exs flt) = [IncludeCall p] \<and>
       \<not> filter_is_none flt \<and> include_strings_ok h p ps sts cts ens exs \<and>
       call_outcome flt p = Inl e)) \<and>
   (ExcludeCall q \<in> set (fst (matches_exclusion_criteria h p ps sts cts ens exs flt)) \<longrightarrow>
      q = p \<and> \<not> filter_is_none flt \<and> \<not> exclude_strings_hit h p ps sts cts ens exs) \<and>
   (snd (matches_exclusion_criteria h p ps sts cts ens exs flt) = Inl e \<longrightarrow>
      (fst (matches_exclusion_criteria h p ps sts cts ens exs flt) = [] \<and>
       (\<exists>x\<in>set ps. re_compile h x = None \<and> e = ReError x)) \<or>
      (fst (matches_exclusion_criteria h p ps sts cts ens exs flt) = [ExcludeCall p] \<and>
       \<not> filter_is_none flt \<and> \<not> exclude_strings_hit h p ps sts cts ens exs \<and>
       call_outcome flt p = Inl e)) \<and>
   (include_strings_ok h p ps sts cts ens exs \<and> (\<forall>x\<in>set ps. re_compile h x \<noteq> None) \<and>
    \<not> filter_is_none flt \<longrightarrow>
      matches_criteria h p ps sts cts ens exs flt = call_filter (IncludeCall p) flt p) \<and>
   (\<not> exclude_strings_hit h p ps sts cts ens exs \<and> (\<forall>x\<in>set ps. re_compile h x \<noteq> None) \<and>
    \<not> filter_is_none flt \<longrightarrow>
      matches_exclusion_criteria h p ps sts cts ens exs flt = call_filter (ExcludeCall p) flt p)"
proof -
  note a = include_call_only_if[of q h p ps sts cts ens exs flt]
  note b = include_error_cases[of h p ps sts cts ens exs flt e]
  note c = exclude_call_only_if[of q h p ps sts cts ens exs flt]
  note d = exclude_error_cases[of h p ps sts cts ens exs flt e]
  note i = include_call_if[of h p ps sts cts ens exs flt]
  note x = exclude_call_if[of h p ps sts cts ens exs flt]
  show ?thesis
  proof (intro conjI)
    show "IncludeCall q \<in> set (fst (matches_criteria h p ps sts cts ens exs flt)) \<longrightarrow>
      q = p \<and> \<not> filter_is_none flt \<and> include_strings_ok h p ps sts cts ens exs"
      using a by (rule impI)
  next
    show "snd (matches_criteria h p ps sts cts ens exs flt) = Inl e \<longrightarrow>
      (fst (matches_criteria h p ps sts cts ens exs flt) = [] \<and>
       (\<exists>x\<in>set ps. re_compile h x = None \<and> e = ReError x)) \<or>
      (fst (matches_criteria h p ps sts cts ens exs flt) = [IncludeCall p] \<and>
       \<not> filter_is_none flt \<and> include_strings_ok h p ps sts cts ens exs \<and>
       call_outcome flt p = Inl e)"
      using b by (rule impI)
  next
    show "ExcludeCall q \<in> set (fst (matches_exclusion_criteria h p ps sts cts ens exs flt)) \<longrightarrow>
      q = p \<and> \<not> filter_is_none flt \<and> \<not> exclude_strings_hit h p ps sts cts ens exs"
      using c by (rule impI)
  next
    show "snd (matches_exclusion_criteria h p ps sts cts ens exs flt) = Inl e \<longrightarrow>
      (fst (matches_exclusion_criteria h p ps sts cts ens exs flt) = [] \<and>
       (\<exists>x\<in>set ps. re_compile h x = None \<and> e = ReError x)) \<or>
      (fst (matches_exclusion_criteria h p ps sts cts ens exs flt) = [ExcludeCall p] \<and>
       \<not> filter_is_none flt \<and> \<not> exclude_strings_hit h p ps sts cts ens exs \<and>
       call_outcome flt p = Inl e)"
      using d by (rule impI)
  next
    show "include_strings_ok h p ps sts cts ens exs \<and> (\<forall>x\<in>set ps. re_compile h x \<noteq> None) \<and>
      \<not> filter_is_none flt \<longrightarrow>
      matches_criteria h p ps sts cts ens exs flt = call_filter (IncludeCall p) flt p"
      using i by blast
  next
    show "\<not> exclude_strings_hit h p ps sts cts ens exs \<and> (\<forall>x\<in>set ps. re_compile h x \<noteq> None) \<and>
      \<not> filter_is_none flt \<longrightarrow>
      matches_exclusion_criteria h p ps sts cts ens exs flt = call_filter (ExcludeCall p) flt p"
      using x by blast
  qed
qed

theorem custom_predicates_last_witness:
  "matches_criteria example_host ''/reports/report_final.txt'' [] [''report''] [] [] [] (FCallable boom)
     = ([IncludeCall ''/reports/report_final.txt''], Inl (OtherError ''boom''))
   \<and> include_strings_ok example_host ''/reports/report_final.txt'' [] [''report''] [] [] []
   \<and> matches_exclusion_criteria example_host ''/reports/report_final.txt'' [] [] [] [''_draft''] []
       (FCallable boom)
     = ([ExcludeCall ''/reports/report_final.txt''], Inl (OtherError ''boom''))
   \<and> \<not> exclude_strings_hit example_host ''/reports/report_final.txt'' [] [] [] [''_draft''] []
   \<and> matches_criteria example_host ''/reports/report_final.txt'' [] [''notes''] [] [] [] (FCallable boom)
     = ([], Inr False)
   \<and> matches_exclusion_criteria example_host ''/reports/report_final.txt'' [] [] [] [''_final''] []
       (FCallable boom)
     = ([], Inr True)
   \<and> matches_criteria example_host ''/reports/report_final.txt'' [] [''report''] [] [] [] FOther
     = ([IncludeCall ''/reports/report_final.txt''], Inl TypeError)"
proof -
  let ?p = "''/reports/report_final.txt''"
  note t1 = custom_predicates_last[where h = example_host and p = ?p and q = ?p and ps = "[]"
      and sts = "[''report'']" and cts = "[]" and ens = "[]" and exs = "[]" and flt = "FCallable boom"
      and e = "OtherError ''boom''"]
  note t2 = custom_predicates_last[where h = example_host and p = ?p and q = ?p and ps = "[]"
      and sts = "[]" and cts = "[]" and ens = "[''_draft'']" and exs = "[]" and flt = "FCallable boom"
      and e = "OtherError ''boom''"]
  have i: "matches_criteria example_host ?p [] [''report''] [] [] [] (FCallable boom)
     = ([IncludeCall ?p], Inl (OtherError ''boom''))" by code_simp
  have x: "matches_exclusion_criteria example_host ?p [] [] [] [''_draft''] [] (FCallable boom)
     = ([ExcludeCall ?p], Inl (OtherError ''boom''))" by code_simp
  have n: "matches_criteria example_host ?p [] [''notes''] [] [] [] (FCallable boom) = ([], Inr False)"
    by code_simp
  have y: "matches_exclusion_criteria example_host ?p [] [] [] [''_final''] [] (FCallable boom)
     = ([], Inr True)" by code_simp
  have z: "matches_criteria example_host ?p [] [''report''] [] [] [] FOther
     = ([IncludeCall ?p], Inl TypeError)" by code_simp
  from t1[THEN conjunct1] i have a: "include_strings_ok example_host ?p [] [''report''] [] [] []"
    by simp
  from t2[THEN conjunct2, THEN conjunct2, THEN conjunct1] x
  have b: "\<not> exclude_strings_hit example_host ?p [] [] [] [''_draft''] []" by simp
  show ?thesis using i a x b n y z by (intro conjI) assumption+
qed

section \<open>Patterns\<close>

lemma rfind_none: "c \<notin> set t \<Longrightarrow> rfind t c = - 1"
  by (induction t) (auto simp: Let_def)

lemma rfind_after: "c \<notin> set t \<Longrightarrow> rfind (xs @ c # t) c = int (length xs)"
proof (induction xs)
  case Nil
  then show ?case by (simp add: Let_def rfind_none)
next
  case (Cons x xs)
  then have "rfind (xs @ c # t) c = int (length xs)" by simp
  then show ?case by (simp add: Let_def)
qed

lemma drop_after: "drop (nat (int (length xs) + 1)) (xs @ c # t) = t"
proof -
  have "nat (int (length xs) + 1) = Suc (length xs)" by simp
  then show ?thesis by simp
qed

lemma snd_split: "snd (split p) = drop (nat (rfind p sep + 1)) p"
  by (simp add: split_def Let_def)

lemma split_join_name:
  assumes "sep \<notin> set name"
  shows "snd (split (join root name)) = name"
proof -
  from assms have ns: "\<not> startswith name [sep]" by (rule valid_name_no_sep_start)
  show ?thesis
  proof (cases "root = []")
    case True
    with ns assms show ?thesis by (simp add: join_def snd_split rfind_none)
  next
    case False
    show ?thesis
    proof (cases "endswith root [sep]")
      case True
      then obtain r where r: "root = r @ [sep]" by (auto simp: endswith_def suffix_def)
      with ns have j: "join root name = r @ sep # name" by (simp add: join_def endswith_def)
      from assms have "rfind (r @ sep # name) sep = int (length r)" by (rule rfind_after)
      then show ?thesis by (simp only: j snd_split drop_after)
    next
      case e: False
      with False ns have j: "join root name = root @ sep # name" by (simp add: join_def)
      from assms have "rfind (root @ sep # name) sep = int (length root)" by (rule rfind_after)
      then show ?thesis by (simp only: j snd_split drop_after)
    qed
  qed
qed

lemma base_name_join: "sep \<notin> set name \<Longrightarrow> base_name (join root name) = fst (splitext name)"
  by (simp add: base_name_def split_join_name)

lemma closure_bound:
  assumes "\<forall>x\<in>set xs. x \<le> n" and "\<And>x y. x \<le> n \<Longrightarrow> y \<in> set (f x) \<Longrightarrow> y \<le> n"
  shows "\<forall>y\<in>set (closure f m xs). y \<le> n"
  using assms(1)
proof (induction m arbitrary: xs)
  case 0
  then show ?case by simp
next
  case (Suc m)
  have "\<forall>x\<in>set (remdups (xs @ concat (map f xs))). x \<le> n"
    using Suc.prems assms(2) by auto
  from Suc.IH[OF this] show ?case by simp
qed

lemma match_ends_bound:
  "i \<le> length s \<Longrightarrow> k \<in> set (match_ends r s i) \<Longrightarrow> k \<le> length s"
proof (induction r arbitrary: i k)
  case Eps
  then show ?case by simp
next
  case (Sym P)
  then show ?case by (simp split: if_splits)
next
  case (Seq a b)
  from Seq.prems(2) obtain j where j: "j \<in> set (match_ends a s i)" and k: "k \<in> set (match_ends b s j)"
    by auto
  from Seq.IH(1)[OF Seq.prems(1) j] have "j \<le> length s" .
  from Seq.IH(2)[OF this k] show ?case .
next
  case (Alt a b)
  from Alt.prems(2) have "k \<in> set (match_ends a s i) \<or> k \<in> set (match_ends b s i)" by simp
  with Alt.IH Alt.prems(1) show ?case by blast
next
  case (Star a)
  have "\<forall>y\<in>set (closure (match_ends a s) (Suc (length s)) [i]). y \<le> length s"
  proof (rule closure_bound)
    show "\<forall>x\<in>set [i]. x \<le> length s" using Star.prems(1) by simp
  next
    fix x y assume "x \<le> length s" "y \<in> set (match_ends a s x)"
    then show "y \<le> length s" by (rule Star.IH)
  qed
  moreover from Star.prems(2) have "k \<in> set (closure (match_ends a s) (Suc (length s)) [i])"
    by (simp only: match_ends.simps)
  ultimately show ?case by blast
next
  case Bos
  then show ?case by (simp split: if_splits)
next
  case Eos
  then show ?case by (simp split: if_splits)
qed

lemma match_at_start_iff: "match_at_start r s = (match_ends r s 0 \<noteq> [])"
proof
  assume "match_at_start r s"
  then show "match_ends r s 0 \<noteq> []" by (auto simp: match_at_start_def)
next
  assume "match_ends r s 0 \<noteq> []"
  then obtain k where k: "k \<in> set (match_ends r s 0)" by (cases "match_ends r s 0") auto
  from match_ends_bound[OF _ k] have "k \<le> length s" by simp
  with k show "match_at_start r s" by (auto simp: match_at_start_def)
qed

lemma pattern_matches_at_start: "pattern_matches h s p = pattern_match_at_start h p s"
  by (simp add: pattern_matches_def pattern_match_at_start_def re_match_def match_at_start_iff
      split: option.splits)

lemma exclude_tail_True:
  assumes "snd (if filter_is_none flt then io_return False else call_filter ev flt p) = Inr b"
  shows "b = predicate_returns flt p True"
proof (cases "filter_is_none flt")
  case True
  then have "\<not> predicate_returns flt p True" by (cases flt) (simp_all add: predicate_returns_def)
  with True assms show ?thesis by simp
next
  case False
  with assms have "predicate_returns flt p b" by (simp add: call_outcome_Inr)
  from predicate_returns_unique[OF this, of True] show ?thesis by simp
qed

lemma matches_exclusion_criteria_Inr_True:
  assumes "snd (matches_exclusion_criteria h filepath patterns starts cont ends exts flt) = Inr b"
  shows "b = (exclude_strings_hit h filepath patterns starts cont ends exts \<or>
              predicate_returns flt filepath True)"
proof (cases "exclude_strings_hit h filepath patterns starts cont ends exts")
  case True
  with matches_exclusion_criteria_Inr[OF assms] show ?thesis by simp
next
  case False
  then have pure: "\<not> exclude_pure filepath starts cont ends exts"
    and np: "\<not> (\<exists>p\<in>set patterns. pattern_matches h (base_name filepath) p)"
    by (simp_all add: exclude_strings_hit_alt)
  let ?A = "if patterns = [] then io_return False else any_re_match h patterns (base_name filepath)"
  let ?F = "if filter_is_none flt then io_return False
            else call_filter (ExcludeCall filepath) flt filepath"
  from pure assms have r: "snd (io_or ?A ?F) = Inr b"
    by (simp add: matches_exclusion_criteria_normal)
  then obtain x where x: "snd ?A = Inr x" by (auto simp: snd_io_or split: sum.splits)
  have "\<not> x"
  proof (cases "patterns = []")
    case True
    with x show ?thesis by simp
  next
    case ne: False
    with x have "snd (any_re_match h patterns (base_name filepath)) = Inr x" by simp
    from any_re_match_Inr[OF this] np show ?thesis by simp
  qed
  with r x have "snd ?F = Inr b" by (simp add: snd_io_or)
  from exclude_tail_True[OF this] False show ?thesis by simp
qed

lemma matches_criteria_total:
  assumes "\<forall>p\<in>set ps. re_compile h p \<noteq> None" and "filter_is_none flt"
  shows "matches_criteria h filepath ps sts cts ens exs flt =
         io_return (include_pure filepath sts cts ens exs \<and>
                    group_ok (pattern_matches h (base_name filepath)) ps)"
  using assms
  by (simp add: matches_criteria_normal any_re_match_total group_ok_def)

lemma matches_exclusion_criteria_total:
  assumes "\<forall>p\<in>set ps. re_compile h p \<noteq> None" and "filter_is_none flt"
  shows "matches_exclusion_criteria h filepath ps sts cts ens exs flt =
         io_return (exclude_pure filepath sts cts ens exs \<or>
                    (\<exists>p\<in>set ps. pattern_matches h (base_name filepath) p))"
  using assms
  by (simp add: matches_exclusion_criteria_normal any_re_match_total)

text \<open>
  C7. For every candidate \<^verbatim>\<open>join(root, name)\<close> and whatever else is declared, a
  pattern of \<^verbatim>\<open>include_pattern\<close> or \<^verbatim>\<open>exclude_pattern\<close> is tested on the base-name,
  which is \<^verbatim>\<open>name\<close> without its extension, and it matches exactly when its
  regular expression has a match that starts at position zero of the base-name
  and ends anywhere in it. The inclusion holds only if the pattern group is
  empty or one pattern matches so; the exclusion holds if one pattern matches
  so. When every pattern compiles and there is no custom predicate the two
  functions return exactly these values.
\<close>

theorem pattern_tested_at_start_of_base_name:
  assumes "sep \<notin> set name"
  shows "base_name (join root name) = fst (splitext name) \<and>
    (snd (matches_criteria h (join root name) ps sts cts ens exs flt) = Inr b \<longrightarrow>
       b = (include_pure (join root name) sts cts ens exs \<and>
            group_ok (\<lambda>p. pattern_match_at_start h p (fst (splitext name))) ps \<and>
            (filter_is_none flt \<or> predicate_returns flt (join root name) True))) \<and>
    (snd (matches_exclusion_criteria h (join root name) ps sts cts ens exs flt) = Inr b \<longrightarrow>
       b = (exclude_pure (join root name) sts cts ens exs \<or>
            (\<exists>p\<in>set ps. pattern_match_at_start h p (fst (splitext name))) \<or>
            predicate_returns flt (join root name) True)) \<and>
    ((\<forall>p\<in>set ps. re_compile h p \<noteq> None) \<and> filter_is_none flt \<longrightarrow>
       matches_criteria h (join root name) ps sts cts ens exs flt =
         io_return (include_pure (join root name) sts cts ens exs \<and>
                    group_ok (\<lambda>p. pattern_match_at_start h p (fst (splitext name))) ps) \<and>
       matches_exclusion_criteria h (join root name) ps sts cts ens exs flt =
         io_return (exclude_pure (join root name) sts cts ens exs \<or>
                    (\<exists>p\<in>set ps. pattern_match_at_start h p (fst (splitext name)))))"
proof -
  let ?s = "fst (splitext name)"
  let ?f = "join root name"
  from assms have bn: "base_name ?f = ?s" by (rule base_name_join)
  have pm: "pattern_matches h ?s = (\<lambda>p. pattern_match_at_start h p ?s)"
    by (rule ext) (rule pattern_matches_at_start)
  have i: "snd (matches_criteria h ?f ps sts cts ens exs flt) = Inr b \<longrightarrow>
       b = (include_pure ?f sts cts ens exs \<and>
            group_ok (\<lambda>p. pattern_match_at_start h p ?s) ps \<and>
            (filter_is_none flt \<or> predicate_returns flt ?f True))"
    using matches_criteria_Inr[of h ?f ps sts cts ens exs flt b]
    by (simp add: include_strings_ok_alt bn pm)
  have x: "snd (matches_exclusion_criteria h ?f ps sts cts ens exs flt) = Inr b \<longrightarrow>
       b = (exclude_pure ?f sts cts ens exs \<or>
            (\<exists>p\<in>set ps. pattern_match_at_start h p ?s) \<or> predicate_returns flt ?f True)"
    using matches_exclusion_criteria_Inr_True[of h ?f ps sts cts ens exs flt b]
    by (simp add: exclude_strings_hit_alt bn pattern_matches_at_start)
  have t: "(\<forall>p\<in>set ps. re_compile h p \<noteq> None) \<and> filter_is_none flt \<longrightarrow>
       matches_criteria h ?f ps sts cts ens exs flt =
         io_return (include_pure ?f sts cts ens exs \<and>
                    group_ok (\<lambda>p. pattern_match_at_start h p ?s) ps) \<and>
       matches_exclusion_criteria h ?f ps sts cts ens exs flt =
         io_return (exclude_pure ?f sts cts ens exs \<or>
                    (\<exists>p\<in>set ps. pattern_match_at_start h p ?s))"
    using matches_criteria_total[of ps h flt ?f sts cts ens exs]
      matches_exclusion_criteria_total[of ps h flt ?f sts cts ens exs]
    by (simp add: bn pm pattern_matches_at_start)
  from bn i x t show ?thesis by (intro conjI)
qed

theorem pattern_tested_at_start_of_base_name_witness:
  "sep \<notin> set ''data23.csv'' \<and> sep \<notin> set ''mydata1.csv''
   \<and> re_compile example_host data_pattern \<noteq> None
   \<and> matches_criteria example_host (join ''/data'' ''data23.csv'') [data_pattern]
        [''da''] [] [] [''.csv''] FNone = io_return True
   \<and> matches_criteria example_host (join ''/data'' ''mydata1.csv'') [data_pattern]
        [''my''] [] [] [''.csv''] FNone = io_return False
   \<and> matches_exclusion_criteria example_host (join ''/data'' ''data23.csv'') [data_pattern]
        [''my''] [] [] [''.txt''] FNone = io_return True
   \<and> pattern_match_at_start example_host ''data'' ''data23''
   \<and> re_fullmatch example_host ''data'' ''data23'' = Inr False
   \<and> \<not> pattern_match_at_start example_host ''data'' ''mydata1''
   \<and> re_search example_host ''data'' ''mydata1'' = Inr True"
proof -
  have a1: "sep \<notin> set ''data23.csv''" by code_simp
  have a2: "sep \<notin> set ''mydata1.csv''" by code_simp
  have c: "re_compile example_host data_pattern \<noteq> None" by (simp add: example_host_def)
  then have cc: "(\<forall>p\<in>set [data_pattern]. re_compile example_host p \<noteq> None) \<and> filter_is_none FNone"
    by simp
  have m1: "(include_pure (join ''/data'' ''data23.csv'') [''da''] [] [] [''.csv''] \<and>
       group_ok (\<lambda>p. pattern_match_at_start example_host p (fst (splitext ''data23.csv'')))
         [data_pattern]) = True"
    by code_simp
  have m2: "(include_pure (join ''/data'' ''mydata1.csv'') [''my''] [] [] [''.csv''] \<and>
       group_ok (\<lambda>p. pattern_match_at_start example_host p (fst (splitext ''mydata1.csv'')))
         [data_pattern]) = False"
    by code_simp
  have m3: "(exclude_pure (join ''/data'' ''data23.csv'') [''my''] [] [] [''.txt''] \<or>
       (\<exists>p\<in>set [data_pattern].
          pattern_match_at_start example_host p (fst (splitext ''data23.csv'')))) = True"
    by code_simp
  have m4: "pattern_match_at_start example_host ''data'' ''data23''" by code_simp
  have m5: "\<not> pattern_match_at_start example_host ''data'' ''mydata1''" by code_simp
  have f1: "re_fullmatch example_host ''data'' ''data23'' = Inr False" by code_simp
  have f2: "re_search example_host ''data'' ''mydata1'' = Inr True" by code_simp
  note t1 = pattern_tested_at_start_of_base_name[OF a1, where root = "''/data''" and h = example_host
      and ps = "[data_pattern]" and sts = "[''da'']" and cts = "[]" and ens = "[]"
      and exs = "[''.csv'']" and flt = FNone and b = True,
      THEN conjunct2, THEN conjunct2, THEN conjunct2, THEN mp, OF cc]
  note t2 = pattern_tested_at_start_of_base_name[OF a2, where root = "''/data''" and h = example_host
      and ps = "[data_pattern]" and sts = "[''my'']" and cts = "[]" and ens = "[]"
      and exs = "[''.csv'']" and flt = FNone and b = True,
      THEN conjunct2, THEN conjunct2, THEN conjunct2, THEN mp, OF cc]
  note t3 = pattern_tested_at_start_of_base_name[OF a1, where root = "''/data''" and h = example_host
      and ps = "[data_pattern]" and sts = "[''my'']" and cts = "[]" and ens = "[]"
      and exs = "[''.txt'']" and flt = FNone and b = True,
      THEN conjunct2, THEN conjunct2, THEN conjunct2, THEN mp, OF cc]
  note r1 = t1[THEN conjunct1, unfolded m1]
  note r2 = t2[THEN conjunct1, unfolded m2]
  note r3 = t3[THEN conjunct2, unfolded m3]
  show ?thesis using a1 a2 c r1 r2 r3 m4 f1 m5 f2 by (intro conjI) assumption+
qed


end
